theory Spec2Isabelle
  imports Main
begin

section \<open>The document tree\<close>

text \<open>
  The program (\<^verbatim>\<open>docx_to_gcweb_html_extended.js\<close>) parses an HTML fragment with
  cheerio and rewrites the tree in place. A node of the tree is an element (tag name,
  attributes in their order, children), a text node or a comment. Strings are
  \<^typ>\<open>string\<close>; white space is the ASCII white space.

  Two library round trips are taken as given. \<^verbatim>\<open>$(a).html()\<close> serialises the
  children of \<open>a\<close> and \<^verbatim>\<open>$(b).html(s)\<close> parses \<open>s\<close> into fresh children of \<open>b\<close>;
  the pair is modelled as handing over the child sequence itself (\<open>html\<close> below
  returns the children, \<open>html_set\<close> installs them). Where the serialised string is
  used as a string (the label of a pagination entry), the serialiser is a parameter.
\<close>

type_synonym attrs = "(string \<times> string) list"

datatype node =
    Element string attrs "node list"
  | Text string
  | Comment string

fun contents :: "node \<Rightarrow> node list" where
  "contents (Element t a cs) = cs"
| "contents (Text s) = []"
| "contents (Comment s) = []"

fun tagName :: "node \<Rightarrow> string option" where
  "tagName (Element t a cs) = Some t"
| "tagName (Text s) = None"
| "tagName (Comment s) = None"

text \<open>\<^verbatim>\<open>$(n).attr(name)\<close>: the value of the attribute, \<open>None\<close> for \<^verbatim>\<open>undefined\<close>.\<close>

fun attr :: "node \<Rightarrow> string \<Rightarrow> string option" where
  "attr (Element t a cs) k = map_of a k"
| "attr (Text s) k = None"
| "attr (Comment s) k = None"

definition startsWith :: "string \<Rightarrow> string \<Rightarrow> bool" where
  "startsWith s p = (take (length p) s = p)"

text \<open>The selectors the program uses, as tests on one node (\<^verbatim>\<open>$(n).is(sel)\<close>).\<close>

definition is_tag :: "string \<Rightarrow> node \<Rightarrow> bool" where
  "is_tag t n = (tagName n = Some t)"

definition wet_is :: "string \<Rightarrow> node \<Rightarrow> bool" where
  \<comment> \<open>\<^verbatim>\<open>[data-wet='k']\<close>\<close>
  "wet_is k n = (attr n ''data-wet'' = Some k)"

definition wet_prefix :: "string \<Rightarrow> node \<Rightarrow> bool" where
  \<comment> \<open>\<^verbatim>\<open>[data-wet^='p']\<close>\<close>
  "wet_prefix p n = (case attr n ''data-wet'' of None \<Rightarrow> False | Some v \<Rightarrow> startsWith v p)"

definition is_div_wet :: "string \<Rightarrow> node \<Rightarrow> bool" where
  \<comment> \<open>\<^verbatim>\<open>div[data-wet='k']\<close>\<close>
  "is_div_wet k n = (is_tag ''div'' n \<and> wet_is k n)"

definition is_div_wet_prefix :: "string \<Rightarrow> node \<Rightarrow> bool" where
  \<comment> \<open>\<^verbatim>\<open>div[data-wet^='p']\<close>\<close>
  "is_div_wet_prefix p n = (is_tag ''div'' n \<and> wet_prefix p n)"

text \<open>
  A marker as the style map of the program writes it:
  \<^verbatim>\<open>p[style-name='WET ...'] => div[data-wet='kind']:fresh\<close>, the paragraph's content
  inside.
\<close>

definition marker :: "string \<Rightarrow> node list \<Rightarrow> node" where
  "marker kind cs = Element ''div'' [(''data-wet'', kind)] cs"

subsection \<open>The cheerio calls on one element\<close>

definition new_element :: "string \<Rightarrow> node" where
  \<comment> \<open>\<^verbatim>\<open>$("<tag/>")\<close>\<close>
  "new_element t = Element t [] []"

fun set_attr_list :: "string \<Rightarrow> string \<Rightarrow> attrs \<Rightarrow> attrs" where
  "set_attr_list k v [] = [(k, v)]"
| "set_attr_list k v ((k', v') # a) =
     (if k' = k then (k, v) # a else (k', v') # set_attr_list k v a)"

fun attr_set :: "node \<Rightarrow> string \<Rightarrow> string \<Rightarrow> node" where
  \<comment> \<open>\<^verbatim>\<open>$(n).attr(k, v)\<close>: an element's attribute is replaced where it stands, or added last\<close>
  "attr_set (Element t a cs) k v = Element t (set_attr_list k v a) cs"
| "attr_set (Text s) k v = Text s"
| "attr_set (Comment s) k v = Comment s"

fun append_child :: "node \<Rightarrow> node \<Rightarrow> node" where
  \<comment> \<open>\<^verbatim>\<open>$(n).append(c)\<close> for one node \<open>c\<close> that has no parent\<close>
  "append_child (Element t a cs) c = Element t a (cs @ [c])"
| "append_child (Text s) c = Text s"
| "append_child (Comment s) c = Comment s"

fun html :: "node \<Rightarrow> node list option" where
  \<comment> \<open>\<^verbatim>\<open>$(n).html()\<close>: \<^verbatim>\<open>null\<close> for a node that cannot have children\<close>
  "html (Element t a cs) = Some cs"
| "html (Text s) = None"
| "html (Comment s) = None"

fun html_set :: "node \<Rightarrow> node list option \<Rightarrow> node" where
  \<comment> \<open>\<^verbatim>\<open>$(n).html(x)\<close>: \<^verbatim>\<open>null\<close> is turned into the string \<^verbatim>\<open>"null"\<close> and parsed\<close>
  "html_set (Element t a cs) (Some cs') = Element t a cs'"
| "html_set (Element t a cs) None = Element t a [Text ''null'']"
| "html_set (Text s) x = Text s"
| "html_set (Comment s) x = Comment s"

fun text_set :: "node \<Rightarrow> string \<Rightarrow> node" where
  \<comment> \<open>\<^verbatim>\<open>$(n).text(s)\<close>: one text node replaces the children\<close>
  "text_set (Element t a cs) s = Element t a [Text s]"
| "text_set (Text s') s = Text s'"
| "text_set (Comment s') s = Comment s'"

fun text_of :: "node list \<Rightarrow> string" where
  \<comment> \<open>\<^verbatim>\<open>.text()\<close>: the text nodes below, in document order\<close>
  "text_of [] = []"
| "text_of (Element t a cs # ns) = text_of cs @ text_of ns"
| "text_of (Text s # ns) = s @ text_of ns"
| "text_of (Comment s # ns) = text_of ns"

subsection \<open>Strings and class names\<close>

definition is_space :: "char \<Rightarrow> bool" where
  "is_space c = (c \<in> set [CHR 0x09, CHR 0x0A, CHR 0x0B, CHR 0x0C, CHR 0x0D, CHR 0x20])"

definition trim :: "string \<Rightarrow> string" where
  \<comment> \<open>\<^verbatim>\<open>s.trim()\<close>\<close>
  "trim s = rev (dropWhile is_space (rev (dropWhile is_space s)))"

fun split_space :: "string \<Rightarrow> string \<Rightarrow> string list" where
  \<comment> \<open>\<^verbatim>\<open>s.split(/\\s+/)\<close>, the piece read so far first: a run of white space ends a piece,
      also an empty one at either end\<close>
  "split_space cur [] = [cur]"
| "split_space cur (c # s) =
     (if is_space c then
        (case s of
           [] \<Rightarrow> [cur, []]
         | c' # s' \<Rightarrow> if is_space c' then split_space cur s else cur # split_space [] s)
      else split_space (cur @ [c]) s)"

fun join_space :: "string list \<Rightarrow> string" where
  \<comment> \<open>\<^verbatim>\<open>xs.join(" ")\<close>\<close>
  "join_space [] = []"
| "join_space [x] = x"
| "join_space (x # y # zs) = x @ '' '' @ join_space (y # zs)"

fun includes_str :: "string \<Rightarrow> string \<Rightarrow> bool" where
  \<comment> \<open>\<^verbatim>\<open>s.includes(sub)\<close>\<close>
  "includes_str [] sub = (sub = [])"
| "includes_str (c # s) sub = (take (length sub) (c # s) = sub \<or> includes_str s sub)"

definition add_class_names :: "string list \<Rightarrow> string \<Rightarrow> string" where
  "add_class_names classNames setClass =
     foldl (\<lambda>acc cn. if includes_str acc ('' '' @ cn @ '' '') then acc else acc @ cn @ '' '')
       setClass classNames"

fun addClass :: "node \<Rightarrow> string \<Rightarrow> node" where
  \<comment> \<open>\<^verbatim>\<open>$(n).addClass(value)\<close> as cheerio has it: nothing for an empty value; the names
      joined where the element has no class, and appended where missing otherwise\<close>
  "addClass (Element t a cs) v =
     (if v = [] then Element t a cs
      else (case map_of a ''class'' of
              None \<Rightarrow> Element t (set_attr_list ''class'' (trim (join_space (split_space [] v))) a) cs
            | Some cl \<Rightarrow>
                if cl = []
                then Element t (set_attr_list ''class'' (trim (join_space (split_space [] v))) a) cs
                else Element t
                       (set_attr_list ''class''
                          (trim (add_class_names (split_space [] v) ('' '' @ cl @ '' ''))) a) cs))"
| "addClass (Text s) v = Text s"
| "addClass (Comment s) v = Comment s"

fun remove_all :: "(node \<Rightarrow> bool) \<Rightarrow> node list \<Rightarrow> node list" where
  \<comment> \<open>\<^verbatim>\<open>$main.find(sel).remove()\<close> on the children of \<^verbatim>\<open>$main\<close>: every element below
      that matches goes, with what it holds\<close>
  "remove_all P [] = []"
| "remove_all P (Element t a cs # ns) =
     (if P (Element t a cs) then remove_all P ns
      else Element t a (remove_all P cs) # remove_all P ns)"
| "remove_all P (Text s # ns) = Text s # remove_all P ns"
| "remove_all P (Comment s # ns) = Comment s # remove_all P ns"

text \<open>Whether some element of a forest, at any depth, matches a selector.\<close>

fun occurs :: "(node \<Rightarrow> bool) \<Rightarrow> node list \<Rightarrow> bool" where
  "occurs P [] = False"
| "occurs P (Element t a cs # ns) = (P (Element t a cs) \<or> occurs P cs \<or> occurs P ns)"
| "occurs P (Text s # ns) = occurs P ns"
| "occurs P (Comment s # ns) = occurs P ns"

lemma remove_all_id: "\<not> occurs P ns \<Longrightarrow> remove_all P ns = ns"
  by (induction P ns rule: remove_all.induct) auto

lemma occurs_append: "occurs P (xs @ ys) = (occurs P xs \<or> occurs P ys)"
  by (induction P xs rule: occurs.induct) auto

lemma remove_all_append: "remove_all P (xs @ ys) = remove_all P xs @ remove_all P ys"
  by (induction P xs rule: remove_all.induct) auto

section \<open>The details pass (\<^verbatim>\<open>buildDetails\<close>, lines 166 to 204)\<close>

text \<open>
  The passes over the top-level sequence keep a snapshot \<open>nodes\<close> of the children of
  \<^verbatim>\<open>$main\<close> and two indices. The snapshot is taken again after every edit, and a
  round of the loop that edits nothing leaves the tree alone, so at the head of the outer
  loop the snapshot is the sequence of children itself: the model passes that one list.
  Inside the inner loop the snapshot is not refreshed; the nodes it walks past are read
  from the snapshot and taken out of the tree when the outer round ends.
\<close>

function details_collect :: "node list \<Rightarrow> nat \<Rightarrow> node \<Rightarrow> nat \<times> node" where
  "details_collect nodes j details =
     (if j < length nodes \<and> is_div_wet ''details-content'' (nodes ! j)
      then details_collect nodes (j + 1)
             (append_child details (html_set (new_element ''p'') (html (nodes ! j))))
      else (j, details))"
  by pat_completeness auto
termination
  by (relation "measure (\<lambda>(nodes, j, details). length nodes - j)") auto

declare details_collect.simps [simp del]

lemma details_collect_stop:
  "\<not> (j < length nodes \<and> is_div_wet ''details-content'' (nodes ! j)) \<Longrightarrow>
     details_collect nodes j d = (j, d)"
  by (subst details_collect.simps) auto

lemma details_collect_content:
  "j < length nodes \<Longrightarrow> is_div_wet ''details-content'' (nodes ! j) \<Longrightarrow>
     details_collect nodes j d =
       details_collect nodes (j + 1)
         (append_child d (html_set (new_element ''p'') (html (nodes ! j))))"
  by (subst details_collect.simps) simp

lemma details_collect_bounds:
  "details_collect nodes j d = (j', d') \<Longrightarrow> j \<le> j' \<and> (j \<le> length nodes \<longrightarrow> j' \<le> length nodes)"
proof (induction nodes j d arbitrary: j' d' rule: details_collect.induct)
  case (1 nodes j details)
  show ?case
  proof (cases "j < length nodes \<and> is_div_wet ''details-content'' (nodes ! j)")
    case True
    with "1.prems" "1.IH" [OF True] show ?thesis
      by (simp add: details_collect_content)
  next
    case False
    with "1.prems" show ?thesis
      by (simp add: details_collect_stop)
  qed
qed

function buildDetails_loop :: "node list \<Rightarrow> nat \<Rightarrow> node list" where
  "buildDetails_loop nodes i =
     (if i < length nodes then
        (if is_div_wet ''details-summary'' (nodes ! i) then
           (case details_collect nodes (i + 1)
                   (append_child (new_element ''details'')
                      (html_set (new_element ''summary'') (html (nodes ! i)))) of
              (j, details) \<Rightarrow>
                buildDetails_loop (take i nodes @ [details] @ drop j nodes) (i + 1))
         else buildDetails_loop nodes (i + 1))
      else nodes)"
  by pat_completeness auto
termination
proof (relation "measure (\<lambda>(nodes, i). length nodes - i)", goal_cases)
  case 1
  show ?case by simp
next
  case (2 nodes i j details)
  from details_collect_bounds [OF "2"(3) [symmetric]] "2"(1)
  have "i + 1 \<le> j" and "j \<le> length nodes" by simp_all
  with "2"(1) show ?case by simp
next
  case (3 nodes i)
  then show ?case by simp
qed

declare buildDetails_loop.simps [simp del]

lemma buildDetails_loop_done:
  "\<not> i < length nodes \<Longrightarrow> buildDetails_loop nodes i = nodes"
  by (subst buildDetails_loop.simps) simp

lemma buildDetails_loop_skip:
  "i < length nodes \<Longrightarrow> \<not> is_div_wet ''details-summary'' (nodes ! i) \<Longrightarrow>
     buildDetails_loop nodes i = buildDetails_loop nodes (i + 1)"
  by (subst buildDetails_loop.simps) simp

lemma buildDetails_loop_summary:
  "i < length nodes \<Longrightarrow> is_div_wet ''details-summary'' (nodes ! i) \<Longrightarrow>
   details_collect nodes (i + 1)
     (append_child (new_element ''details'')
        (html_set (new_element ''summary'') (html (nodes ! i)))) = (j, details) \<Longrightarrow>
     buildDetails_loop nodes i =
       buildDetails_loop (take i nodes @ [details] @ drop j nodes) (i + 1)"
  by (subst buildDetails_loop.simps) simp

definition buildDetails :: "node list \<Rightarrow> node list" where
  "buildDetails nodes =
     remove_all (is_div_wet ''details-content'') (buildDetails_loop nodes 0)"

section \<open>The accordion pass (\<^verbatim>\<open>buildAccordion\<close>, lines 207 to 276)\<close>

text \<open>
  The inner loop holds \<^verbatim>\<open>$section\<close> and \<^verbatim>\<open>$currentItem\<close>, the latter a reference to
  the child of \<^verbatim>\<open>$section\<close> that was appended last. The model keeps the two apart:
  \<open>items\<close> are the children of the section that are closed, \<open>cur\<close> is the open item
  (\<open>None\<close> for \<^verbatim>\<open>null\<close>), and \<open>accordion_section\<close> puts them together as the tree has
  them.
\<close>

fun opt_list :: "'a option \<Rightarrow> 'a list" where
  "opt_list None = []"
| "opt_list (Some x) = [x]"

definition accordion_section :: "node list \<Rightarrow> node option \<Rightarrow> node" where
  "accordion_section items cur =
     Element ''section'' [(''class'', ''wb-accordion'')] (items @ opt_list cur)"

function accordion_scan ::
  "node list \<Rightarrow> nat \<Rightarrow> node list \<Rightarrow> node option \<Rightarrow> nat \<times> node list \<times> node option" where
  "accordion_scan nodes j items cur =
     (if j < length nodes \<and> \<not> is_div_wet ''accordion-end'' (nodes ! j) then
        (if is_div_wet ''accordion-heading'' (nodes ! j) then
           accordion_scan nodes (j + 1) (items @ opt_list cur)
             (Some (append_child (new_element ''details'')
                      (html_set (new_element ''summary'') (html (nodes ! j)))))
         else if is_div_wet ''accordion-panel'' (nodes ! j) then
           accordion_scan nodes (j + 1) items
             (Some (append_child
                      (case cur of
                         None \<Rightarrow> append_child (new_element ''details'')
                                   (text_set (new_element ''summary'') ''Details'')
                       | Some c \<Rightarrow> c)
                      (html_set (new_element ''p'') (html (nodes ! j)))))
         else
           (case cur of
              Some c \<Rightarrow>
                accordion_scan nodes (j + 1) items
                  (Some (append_child c (html_set (new_element ''p'') (html (nodes ! j)))))
            | None \<Rightarrow> (j, items, cur)))
      else (j, items, cur))"
  by pat_completeness auto
termination
  by (relation "measure (\<lambda>(nodes, j, items, cur). length nodes - j)") auto

declare accordion_scan.simps [simp del]

lemma accordion_scan_stop:
  "\<not> (j < length nodes \<and> \<not> is_div_wet ''accordion-end'' (nodes ! j)) \<Longrightarrow>
     accordion_scan nodes j its cur = (j, its, cur)"
  by (subst accordion_scan.simps) auto

lemma accordion_scan_heading:
  "j < length nodes \<Longrightarrow> \<not> is_div_wet ''accordion-end'' (nodes ! j) \<Longrightarrow>
   is_div_wet ''accordion-heading'' (nodes ! j) \<Longrightarrow>
     accordion_scan nodes j its cur =
       accordion_scan nodes (j + 1) (its @ opt_list cur)
         (Some (append_child (new_element ''details'')
                  (html_set (new_element ''summary'') (html (nodes ! j)))))"
  by (subst accordion_scan.simps) simp

lemma accordion_scan_panel:
  "j < length nodes \<Longrightarrow> \<not> is_div_wet ''accordion-end'' (nodes ! j) \<Longrightarrow>
   \<not> is_div_wet ''accordion-heading'' (nodes ! j) \<Longrightarrow>
   is_div_wet ''accordion-panel'' (nodes ! j) \<Longrightarrow>
     accordion_scan nodes j its cur =
       accordion_scan nodes (j + 1) its
         (Some (append_child
                  (case cur of
                     None \<Rightarrow> append_child (new_element ''details'')
                               (text_set (new_element ''summary'') ''Details'')
                   | Some c \<Rightarrow> c)
                  (html_set (new_element ''p'') (html (nodes ! j)))))"
  by (subst accordion_scan.simps) simp

lemma accordion_scan_other:
  "j < length nodes \<Longrightarrow> \<not> is_div_wet ''accordion-end'' (nodes ! j) \<Longrightarrow>
   \<not> is_div_wet ''accordion-heading'' (nodes ! j) \<Longrightarrow>
   \<not> is_div_wet ''accordion-panel'' (nodes ! j) \<Longrightarrow>
     accordion_scan nodes j its (Some c) =
       accordion_scan nodes (j + 1) its
         (Some (append_child c (html_set (new_element ''p'') (html (nodes ! j)))))"
  by (subst accordion_scan.simps) simp

lemma accordion_scan_break:
  "j < length nodes \<Longrightarrow> \<not> is_div_wet ''accordion-end'' (nodes ! j) \<Longrightarrow>
   \<not> is_div_wet ''accordion-heading'' (nodes ! j) \<Longrightarrow>
   \<not> is_div_wet ''accordion-panel'' (nodes ! j) \<Longrightarrow>
     accordion_scan nodes j its None = (j, its, None)"
  by (subst accordion_scan.simps) simp

lemma accordion_scan_bounds:
  "accordion_scan nodes j its cur = (j', its', cur') \<Longrightarrow>
     j \<le> j' \<and> (j \<le> length nodes \<longrightarrow> j' \<le> length nodes)"
proof (induction nodes j its cur arbitrary: j' its' cur' rule: accordion_scan.induct)
  case (1 nodes j items cur)
  show ?case
  proof (cases "j < length nodes \<and> \<not> is_div_wet ''accordion-end'' (nodes ! j)")
    case False
    with "1.prems" show ?thesis by (simp add: accordion_scan_stop)
  next
    case go: True
    show ?thesis
    proof (cases "is_div_wet ''accordion-heading'' (nodes ! j)")
      case True
      with go "1.prems" "1.IH"(1) [OF go True] show ?thesis
        by (simp add: accordion_scan_heading)
    next
      case nh: False
      show ?thesis
      proof (cases "is_div_wet ''accordion-panel'' (nodes ! j)")
        case True
        with go nh "1.prems" "1.IH"(2) [OF go nh True] show ?thesis
          by (simp add: accordion_scan_panel)
      next
        case np: False
        show ?thesis
        proof (cases cur)
          case None
          with go nh np "1.prems" show ?thesis by (simp add: accordion_scan_break)
        next
          case (Some c)
          with go nh np "1.prems" "1.IH"(3) [OF go nh np Some] show ?thesis
            by (simp add: accordion_scan_other)
        qed
      qed
    qed
  qed
qed

function buildAccordion_loop :: "node list \<Rightarrow> nat \<Rightarrow> node list" where
  "buildAccordion_loop nodes i =
     (if i < length nodes then
        (if is_div_wet ''accordion-start'' (nodes ! i) then
           (case accordion_scan nodes (i + 1) [] None of
              (j, items, cur) \<Rightarrow>
                buildAccordion_loop
                  (take i nodes @ [accordion_section items cur] @
                   drop (if j < length nodes \<and> is_div_wet ''accordion-end'' (nodes ! j)
                         then j + 1 else j) nodes)
                  (i + 1))
         else buildAccordion_loop nodes (i + 1))
      else nodes)"
  by pat_completeness auto
termination
proof (relation "measure (\<lambda>(nodes, i). length nodes - i)", goal_cases)
  case 1
  show ?case by simp
next
  case (2 nodes i j rest items cur)
  from accordion_scan_bounds [of nodes "i + 1" "[]" None j items cur] "2"
  have "i + 1 \<le> j" and "j \<le> length nodes" by simp_all
  with "2"(1) show ?case by auto
next
  case (3 nodes i)
  then show ?case by simp
qed

declare buildAccordion_loop.simps [simp del]

lemma buildAccordion_loop_done:
  "\<not> i < length nodes \<Longrightarrow> buildAccordion_loop nodes i = nodes"
  by (subst buildAccordion_loop.simps) simp

lemma buildAccordion_loop_skip:
  "i < length nodes \<Longrightarrow> \<not> is_div_wet ''accordion-start'' (nodes ! i) \<Longrightarrow>
     buildAccordion_loop nodes i = buildAccordion_loop nodes (i + 1)"
  by (subst buildAccordion_loop.simps) simp

lemma buildAccordion_loop_start:
  "i < length nodes \<Longrightarrow> is_div_wet ''accordion-start'' (nodes ! i) \<Longrightarrow>
   accordion_scan nodes (i + 1) [] None = (j, its, cur) \<Longrightarrow>
     buildAccordion_loop nodes i =
       buildAccordion_loop
         (take i nodes @ [accordion_section its cur] @
          drop (if j < length nodes \<and> is_div_wet ''accordion-end'' (nodes ! j)
                then j + 1 else j) nodes)
         (i + 1)"
  by (subst buildAccordion_loop.simps) simp

definition buildAccordion :: "node list \<Rightarrow> node list" where
  "buildAccordion nodes =
     remove_all (is_div_wet_prefix ''accordion-'') (buildAccordion_loop nodes 0)"

section \<open>The pagination pass (\<^verbatim>\<open>buildPagination\<close>, lines 279 to 347)\<close>

text \<open>
  \<^verbatim>\<open>const label = $m.text().trim() || $m.html()\<close>: the trimmed text, and the serialised
  children where that is the empty string. \<open>serialize\<close> stands for cheerio's serialiser.
\<close>

definition pagination_label :: "(node list \<Rightarrow> string) \<Rightarrow> node \<Rightarrow> string" where
  "pagination_label serialize m =
     (if trim (text_of [m]) = [] then serialize (contents m) else trim (text_of [m]))"

definition li_active :: "string \<Rightarrow> node" where
  "li_active label =
     append_child (addClass (new_element ''li'') ''active'')
       (text_set (attr_set (attr_set (new_element ''a'') ''href'' ''#'') ''aria-current'' ''page'')
          label)"

definition li_disabled :: "string \<Rightarrow> node" where
  "li_disabled label =
     append_child (addClass (new_element ''li'') ''disabled'')
       (text_set (new_element ''span'') label)"

definition li_item :: "string \<Rightarrow> node" where
  "li_item label =
     append_child (new_element ''li'')
       (text_set (attr_set (new_element ''a'') ''href'' ''#'') label)"

function pagination_scan ::
  "(node list \<Rightarrow> string) \<Rightarrow> node list \<Rightarrow> nat \<Rightarrow> node \<Rightarrow> nat \<times> node" where
  "pagination_scan serialize nodes j ul =
     (if j < length nodes \<and> \<not> is_div_wet ''pagination-end'' (nodes ! j) then
        (if is_div_wet ''pagination-active'' (nodes ! j) then
           pagination_scan serialize nodes (j + 1)
             (append_child ul (li_active (pagination_label serialize (nodes ! j))))
         else if is_div_wet ''pagination-disabled'' (nodes ! j) then
           pagination_scan serialize nodes (j + 1)
             (append_child ul (li_disabled (pagination_label serialize (nodes ! j))))
         else if is_div_wet ''pagination-item'' (nodes ! j) then
           pagination_scan serialize nodes (j + 1)
             (append_child ul (li_item (pagination_label serialize (nodes ! j))))
         else (j, ul))
      else (j, ul))"
  by pat_completeness auto
termination
  by (relation "measure (\<lambda>(serialize, nodes, j, ul). length nodes - j)") auto

declare pagination_scan.simps [simp del]

lemma pagination_scan_stop:
  "\<not> (j < length nodes \<and> \<not> is_div_wet ''pagination-end'' (nodes ! j)) \<Longrightarrow>
     pagination_scan ser nodes j ul = (j, ul)"
  by (subst pagination_scan.simps) auto

lemma pagination_scan_active:
  "j < length nodes \<Longrightarrow> \<not> is_div_wet ''pagination-end'' (nodes ! j) \<Longrightarrow>
   is_div_wet ''pagination-active'' (nodes ! j) \<Longrightarrow>
     pagination_scan ser nodes j ul =
       pagination_scan ser nodes (j + 1)
         (append_child ul (li_active (pagination_label ser (nodes ! j))))"
  by (subst pagination_scan.simps) simp

lemma pagination_scan_disabled:
  "j < length nodes \<Longrightarrow> \<not> is_div_wet ''pagination-end'' (nodes ! j) \<Longrightarrow>
   \<not> is_div_wet ''pagination-active'' (nodes ! j) \<Longrightarrow>
   is_div_wet ''pagination-disabled'' (nodes ! j) \<Longrightarrow>
     pagination_scan ser nodes j ul =
       pagination_scan ser nodes (j + 1)
         (append_child ul (li_disabled (pagination_label ser (nodes ! j))))"
  by (subst pagination_scan.simps) simp

lemma pagination_scan_item:
  "j < length nodes \<Longrightarrow> \<not> is_div_wet ''pagination-end'' (nodes ! j) \<Longrightarrow>
   \<not> is_div_wet ''pagination-active'' (nodes ! j) \<Longrightarrow>
   \<not> is_div_wet ''pagination-disabled'' (nodes ! j) \<Longrightarrow>
   is_div_wet ''pagination-item'' (nodes ! j) \<Longrightarrow>
     pagination_scan ser nodes j ul =
       pagination_scan ser nodes (j + 1)
         (append_child ul (li_item (pagination_label ser (nodes ! j))))"
  by (subst pagination_scan.simps) simp

lemma pagination_scan_break:
  "j < length nodes \<Longrightarrow> \<not> is_div_wet ''pagination-end'' (nodes ! j) \<Longrightarrow>
   \<not> is_div_wet ''pagination-active'' (nodes ! j) \<Longrightarrow>
   \<not> is_div_wet ''pagination-disabled'' (nodes ! j) \<Longrightarrow>
   \<not> is_div_wet ''pagination-item'' (nodes ! j) \<Longrightarrow>
     pagination_scan ser nodes j ul = (j, ul)"
  by (subst pagination_scan.simps) simp

lemma pagination_scan_bounds:
  "pagination_scan ser nodes j ul = (j', ul') \<Longrightarrow>
     j \<le> j' \<and> (j \<le> length nodes \<longrightarrow> j' \<le> length nodes)"
proof (induction ser nodes j ul arbitrary: j' ul' rule: pagination_scan.induct)
  case (1 ser nodes j ul)
  show ?case
  proof (cases "j < length nodes \<and> \<not> is_div_wet ''pagination-end'' (nodes ! j)")
    case False
    with "1.prems" show ?thesis by (simp add: pagination_scan_stop)
  next
    case go: True
    show ?thesis
    proof (cases "is_div_wet ''pagination-active'' (nodes ! j)")
      case True
      with go "1.prems" "1.IH"(1) [OF go True] show ?thesis
        by (simp add: pagination_scan_active)
    next
      case na: False
      show ?thesis
      proof (cases "is_div_wet ''pagination-disabled'' (nodes ! j)")
        case True
        with go na "1.prems" "1.IH"(2) [OF go na True] show ?thesis
          by (simp add: pagination_scan_disabled)
      next
        case nd: False
        show ?thesis
        proof (cases "is_div_wet ''pagination-item'' (nodes ! j)")
          case True
          with go na nd "1.prems" "1.IH"(3) [OF go na nd True] show ?thesis
            by (simp add: pagination_scan_item)
        next
          case False
          with go na nd "1.prems" show ?thesis
            by (simp add: pagination_scan_break)
        qed
      qed
    qed
  qed
qed

text \<open>
  \<^verbatim>\<open>$nav.append($ul)\<close> runs before the list is filled and holds the list by reference;
  the model appends the filled list.
\<close>

definition pagination_nav :: "node \<Rightarrow> node" where
  "pagination_nav ul =
     append_child (attr_set (new_element ''nav'') ''aria-label'' ''Pagination'') ul"

function buildPagination_loop :: "(node list \<Rightarrow> string) \<Rightarrow> node list \<Rightarrow> nat \<Rightarrow> node list" where
  "buildPagination_loop serialize nodes i =
     (if i < length nodes then
        (if is_div_wet ''pagination-start'' (nodes ! i) then
           (case pagination_scan serialize nodes (i + 1)
                   (addClass (new_element ''ul'') ''pagination'') of
              (j, ul) \<Rightarrow>
                buildPagination_loop serialize
                  (take i nodes @ [pagination_nav ul] @
                   drop (if j < length nodes \<and> is_div_wet ''pagination-end'' (nodes ! j)
                         then j + 1 else j) nodes)
                  (i + 1))
         else buildPagination_loop serialize nodes (i + 1))
      else nodes)"
  by pat_completeness auto
termination
proof (relation "measure (\<lambda>(serialize, nodes, i). length nodes - i)", goal_cases)
  case 1
  show ?case by simp
next
  case (2 serialize nodes i j ul)
  from pagination_scan_bounds [OF "2"(3) [symmetric]] "2"(1)
  have "i + 1 \<le> j" and "j \<le> length nodes" by simp_all
  with "2"(1) show ?case by auto
next
  case (3 serialize nodes i)
  then show ?case by simp
qed

declare buildPagination_loop.simps [simp del]

lemma buildPagination_loop_done:
  "\<not> i < length nodes \<Longrightarrow> buildPagination_loop ser nodes i = nodes"
  by (subst buildPagination_loop.simps) simp

lemma buildPagination_loop_skip:
  "i < length nodes \<Longrightarrow> \<not> is_div_wet ''pagination-start'' (nodes ! i) \<Longrightarrow>
     buildPagination_loop ser nodes i = buildPagination_loop ser nodes (i + 1)"
  by (subst buildPagination_loop.simps) simp

lemma buildPagination_loop_start:
  "i < length nodes \<Longrightarrow> is_div_wet ''pagination-start'' (nodes ! i) \<Longrightarrow>
   pagination_scan ser nodes (i + 1) (addClass (new_element ''ul'') ''pagination'') = (j, ul) \<Longrightarrow>
     buildPagination_loop ser nodes i =
       buildPagination_loop ser
         (take i nodes @ [pagination_nav ul] @
          drop (if j < length nodes \<and> is_div_wet ''pagination-end'' (nodes ! j)
                then j + 1 else j) nodes)
         (i + 1)"
  by (subst buildPagination_loop.simps) simp

definition buildPagination :: "(node list \<Rightarrow> string) \<Rightarrow> node list \<Rightarrow> node list" where
  "buildPagination serialize nodes =
     remove_all (is_div_wet_prefix ''pagination-'') (buildPagination_loop serialize nodes 0)"

section \<open>The passes over a selection (alerts, tables, lists)\<close>

text \<open>
  \<^verbatim>\<open>$(sel).each(f)\<close> selects the matching elements once, in document order, and then
  calls \<open>f\<close> on each of them. The callbacks edit the tree, so what the selection holds
  are nodes, not positions. The model numbers the elements in document order before a
  pass (\<open>number\<close>) and names a selected node by its number; an element that a callback
  creates has no number. The tree of the model is the document. A selected node that has
  left the document by the time its turn comes (a node below one that was replaced or
  removed) is not found under its number, and its callback leaves the document as it is:
  all it edits lies outside the document.
\<close>

datatype lnode =
    LElement "nat option" string attrs "lnode list"
  | LText string
  | LComment string

fun number :: "nat \<Rightarrow> node list \<Rightarrow> lnode list \<times> nat" where
  "number c [] = ([], c)"
| "number c (Element t a cs # ns) =
     (case number (Suc c) cs of
        (cs', c') \<Rightarrow> (case number c' ns of (ns', c'') \<Rightarrow> (LElement (Some c) t a cs' # ns', c'')))"
| "number c (Text s # ns) = (case number c ns of (ns', c') \<Rightarrow> (LText s # ns', c'))"
| "number c (Comment s # ns) = (case number c ns of (ns', c') \<Rightarrow> (LComment s # ns', c'))"

fun strip :: "lnode list \<Rightarrow> node list" where
  "strip [] = []"
| "strip (LElement l t a cs # ns) = Element t a (strip cs) # strip ns"
| "strip (LText s # ns) = Text s # strip ns"
| "strip (LComment s # ns) = Comment s # strip ns"

text \<open>
  The selectors of the passes read the tag and the attributes only: \<open>shallow\<close> is the
  node without what it holds.
\<close>

fun shallow :: "lnode \<Rightarrow> node" where
  "shallow (LElement l t a cs) = Element t a []"
| "shallow (LText s) = Text s"
| "shallow (LComment s) = Comment s"

fun label :: "lnode \<Rightarrow> nat option" where
  "label (LElement l t a cs) = l"
| "label (LText s) = None"
| "label (LComment s) = None"

fun lcontents :: "lnode \<Rightarrow> lnode list" where
  "lcontents (LElement l t a cs) = cs"
| "lcontents (LText s) = []"
| "lcontents (LComment s) = []"

fun select :: "(node \<Rightarrow> bool) \<Rightarrow> lnode list \<Rightarrow> nat list" where
  \<comment> \<open>\<^verbatim>\<open>$(sel)\<close>: the numbers of the matching elements, in document order\<close>
  "select P [] = []"
| "select P (LElement l t a cs # ns) =
     (if P (Element t a []) then opt_list l else []) @ select P cs @ select P ns"
| "select P (LText s # ns) = select P ns"
| "select P (LComment s # ns) = select P ns"

fun fresh :: "node \<Rightarrow> lnode list \<Rightarrow> lnode" where
  \<comment> \<open>an element the callback has built, with the nodes it was given to hold\<close>
  "fresh (Element t a cs) ls = LElement None t a ls"
| "fresh (Text s) ls = LText s"
| "fresh (Comment s) ls = LComment s"

fun on_element :: "(node \<Rightarrow> node) \<Rightarrow> lnode \<Rightarrow> lnode" where
  \<comment> \<open>a call that edits the attributes of an element (\<^verbatim>\<open>attr\<close>, \<^verbatim>\<open>addClass\<close>), on a node of
      the numbered tree\<close>
  "on_element f (LElement l t a cs) =
     (case f (Element t a []) of
        Element t' a' cs' \<Rightarrow> LElement l t' a' cs
      | Text s \<Rightarrow> LElement l t a cs
      | Comment s \<Rightarrow> LElement l t a cs)"
| "on_element f (LText s) = LText s"
| "on_element f (LComment s) = LComment s"

definition data_wet :: "attrs \<Rightarrow> string" where
  \<comment> \<open>\<^verbatim>\<open>$(el).attr("data-wet")\<close> of a selected element: its selector has seen the attribute\<close>
  "data_wet a = (case map_of a ''data-wet'' of None \<Rightarrow> [] | Some v \<Rightarrow> v)"

fun replace_first :: "string \<Rightarrow> string \<Rightarrow> string \<Rightarrow> string" where
  \<comment> \<open>\<^verbatim>\<open>s.replace(pat, rep)\<close> for a string \<open>pat\<close>: the first occurrence only\<close>
  "replace_first pat rep [] = (if pat = [] then rep else [])"
| "replace_first pat rep (c # s) =
     (if take (length pat) (c # s) = pat then rep @ drop (length pat) (c # s)
      else c # replace_first pat rep s)"

subsection \<open>Alerts (lines 129 to 135)\<close>

fun first_p :: "lnode list \<Rightarrow> lnode option" where
  \<comment> \<open>\<^verbatim>\<open>$(el).find("p").first()\<close> over the children of \<open>el\<close>: the first \<^verbatim>\<open>p\<close> below, in
      document order\<close>
  "first_p [] = None"
| "first_p (LElement l t a cs # ns) =
     (if t = ''p'' then Some (LElement l t a cs)
      else (case first_p cs of Some r \<Rightarrow> Some r | None \<Rightarrow> first_p ns))"
| "first_p (LText s # ns) = first_p ns"
| "first_p (LComment s # ns) = first_p ns"

definition alert_section :: "attrs \<Rightarrow> lnode list \<Rightarrow> lnode" where
  \<comment> \<open>lines 130, 132 and 133 for a marker with attributes \<open>a\<close>: the new section, holding
      the \<open>content\<close> that \<^verbatim>\<open>append\<close> has moved out of the marker\<close>
  "alert_section a content =
     fresh (addClass (new_element ''section'')
              (''alert alert-'' @ replace_first ''alert-'' [] (data_wet a)))
           content"

fun alert_each :: "nat \<Rightarrow> lnode list \<Rightarrow> lnode list" where
  \<comment> \<open>the callback for the element numbered \<open>i\<close>: line 134 puts the section in its place\<close>
  "alert_each i [] = []"
| "alert_each i (LElement l t a cs # ns) =
     (if l = Some i then alert_section a (opt_list (first_p cs)) # alert_each i ns
      else LElement l t a (alert_each i cs) # alert_each i ns)"
| "alert_each i (LText s # ns) = LText s # alert_each i ns"
| "alert_each i (LComment s # ns) = LComment s # alert_each i ns"

definition alertsPass :: "node list \<Rightarrow> node list" where
  "alertsPass ns =
     (let doc = fst (number 0 ns)
      in strip (foldl (\<lambda>d i. alert_each i d) doc (select (wet_prefix ''alert-'') doc)))"

subsection \<open>Tables (lines 138 to 163) and lists (lines 350 to 360)\<close>

fun first_index :: "('a \<Rightarrow> bool) \<Rightarrow> 'a list \<Rightarrow> nat option" where
  "first_index P [] = None"
| "first_index P (x # xs) = (if P x then Some 0 else map_option Suc (first_index P xs))"

definition next_sibling :: "(node \<Rightarrow> bool) \<Rightarrow> nat \<Rightarrow> lnode list \<Rightarrow> nat option" where
  \<comment> \<open>\<^verbatim>\<open>$marker.nextAll(sel).first()\<close> for the marker at index \<open>k\<close> of its sibling list:
      the index of the first later sibling that matches\<close>
  "next_sibling P k sibs =
     map_option (\<lambda>d. k + 1 + d) (first_index (\<lambda>n. P (shallow n)) (drop (k + 1) sibs))"

definition remove_at :: "nat \<Rightarrow> 'a list \<Rightarrow> 'a list" where
  \<comment> \<open>\<^verbatim>\<open>.remove()\<close> of the child at index \<open>k\<close>\<close>
  "remove_at k xs = take k xs @ drop (k + 1) xs"

definition tableClassMap :: "string \<Rightarrow> string option" where
  "tableClassMap =
     map_of [(''table-basic'', ''table''),
             (''table-striped'', ''table table-striped''),
             (''table-bordered'', ''table table-bordered''),
             (''table-hover'', ''table table-hover''),
             (''table-condensed'', ''table table-condensed'')]"

text \<open>
  Line 157, \<^verbatim>\<open>$nextTable.replaceWith($wrap.append($nextTable))\<close>. The argument is
  evaluated first. \<^verbatim>\<open>append\<close> moves the node it is given (cheerio clones only for the
  targets before the last, and there is one target): the table leaves the child list of
  its parent and becomes the child of the wrapper, which has no parent. \<^verbatim>\<open>replaceWith\<close>
  then reads the parent of the table, finds the wrapper, and splices the replacement into
  the child list of the wrapper. \<open>append_moved\<close> and \<open>replaceWith_child\<close> are the two calls
  on the pair of the wrapper and the sibling list of the marker.
\<close>

definition append_moved :: "lnode \<Rightarrow> nat \<Rightarrow> lnode list \<Rightarrow> lnode \<times> lnode list" where
  \<comment> \<open>\<^verbatim>\<open>$wrap.append($(sibs[m]))\<close>: the wrapper with the node inside, and the sibling list
      the node has left\<close>
  "append_moved wrap m sibs =
     (case wrap of
        LElement l t a cs \<Rightarrow> (LElement l t a (cs @ [sibs ! m]), remove_at m sibs)
      | LText s \<Rightarrow> (wrap, sibs)
      | LComment s \<Rightarrow> (wrap, sibs))"

fun replace_child :: "nat option \<Rightarrow> lnode \<Rightarrow> lnode list \<Rightarrow> lnode list" where
  "replace_child l new [] = []"
| "replace_child l new (n # ns) =
     (if label n = l then new # ns else n # replace_child l new ns)"

definition replaceWith_child :: "nat option \<Rightarrow> lnode \<Rightarrow> lnode \<times> lnode list \<Rightarrow> lnode list" where
  \<comment> \<open>\<^verbatim>\<open>$(el).replaceWith(new)\<close> for the element numbered \<open>l\<close>, which is a child of the
      wrapper or one of the siblings: the sibling list afterwards. With the wrapper as the
      parent of \<open>el\<close> the splice is in the child list of the wrapper.\<close>
  "replaceWith_child l new st =
     (case st of
        (wrap, sibs) \<Rightarrow>
          if l \<in> set (map label (lcontents wrap)) then sibs else replace_child l new sibs)"

definition table_callback :: "nat \<Rightarrow> lnode list \<Rightarrow> lnode list" where
  \<comment> \<open>lines 148 to 162 for the marker at index \<open>k\<close> of its sibling list\<close>
  "table_callback k sibs =
     (let kind = data_wet (case sibs ! k of LElement l t a cs \<Rightarrow> a | LText s \<Rightarrow> [] | LComment s \<Rightarrow> [])
      in remove_at k
           (case next_sibling (is_tag ''table'') k sibs of
              None \<Rightarrow> sibs
            | Some m \<Rightarrow>
                if kind = ''table-responsive'' then
                  (let wrap = fresh (addClass (new_element ''div'') ''table-responsive'') [];
                       st = append_moved wrap m sibs
                   in replaceWith_child (label (sibs ! m)) (fst st) st)
                else (case tableClassMap kind of
                        Some c \<Rightarrow> sibs[m := on_element (\<lambda>e. attr_set e ''class'' c) (sibs ! m)]
                      | None \<Rightarrow> sibs)))"

definition list_callback :: "nat \<Rightarrow> lnode list \<Rightarrow> lnode list" where
  \<comment> \<open>lines 351 to 359 for the marker at index \<open>k\<close> of its sibling list\<close>
  "list_callback k sibs =
     (let kind = data_wet (case sibs ! k of LElement l t a cs \<Rightarrow> a | LText s \<Rightarrow> [] | LComment s \<Rightarrow> [])
      in remove_at k
           (case next_sibling (\<lambda>n. is_tag ''ul'' n \<or> is_tag ''ol'' n) k sibs of
              None \<Rightarrow> sibs
            | Some m \<Rightarrow> sibs[m := on_element (\<lambda>e. addClass e kind) (sibs ! m)]))"

text \<open>
  A callback that works on the siblings of its element is run on the child list that holds
  the element numbered \<open>i\<close>.
\<close>

fun each_at :: "(nat \<Rightarrow> lnode list \<Rightarrow> lnode list) \<Rightarrow> nat \<Rightarrow> lnode list \<Rightarrow> lnode list"
  and below :: "(nat \<Rightarrow> lnode list \<Rightarrow> lnode list) \<Rightarrow> nat \<Rightarrow> lnode list \<Rightarrow> lnode list" where
  "each_at f i sibs =
     (case first_index (\<lambda>n. label n = Some i) sibs of
        Some k \<Rightarrow> f k sibs
      | None \<Rightarrow> below f i sibs)"
| "below f i [] = []"
| "below f i (LElement l t a cs # ns) = LElement l t a (each_at f i cs) # below f i ns"
| "below f i (LText s # ns) = LText s # below f i ns"
| "below f i (LComment s # ns) = LComment s # below f i ns"

lemmas each_at_unfold = each_at.simps

declare each_at.simps [simp del]

definition tablesPass :: "node list \<Rightarrow> node list" where
  "tablesPass ns =
     (let doc = fst (number 0 ns)
      in strip (foldl (\<lambda>d i. each_at table_callback i d) doc
                  (select (wet_prefix ''table-'') doc)))"

definition listsPass :: "node list \<Rightarrow> node list" where
  "listsPass ns =
     (let doc = fst (number 0 ns)
      in strip (foldl (\<lambda>d i. each_at list_callback i d) doc
                  (select (\<lambda>n. wet_is ''list-inline'' n \<or> wet_is ''list-unstyled'' n) doc)))"

section \<open>The whole reconstruction (\<^verbatim>\<open>transformPlaceholdersToGCWeb\<close>, lines 115 to 363)\<close>

text \<open>
  The argument is what cheerio has parsed into \<^verbatim>\<open>body\<close>. Line 120 takes the element
  children of \<^verbatim>\<open>body\<close> (\<^verbatim>\<open>children()\<close> leaves text and comments behind), lines 121 to 126
  put them under a new \<^verbatim>\<open>main\<close>, and the passes follow in the order of the source. The
  result is the tree that line 362 serialises.
\<close>

fun is_element :: "node \<Rightarrow> bool" where
  "is_element (Element t a cs) = True"
| "is_element (Text s) = False"
| "is_element (Comment s) = False"

definition transformPlaceholdersToGCWeb :: "(node list \<Rightarrow> string) \<Rightarrow> node list \<Rightarrow> node" where
  "transformPlaceholdersToGCWeb serialize body =
     (let bodyChildren = filter is_element body;
          main = addClass (attr_set (new_element ''main'') ''property'' ''mainContentOfPage'')
                   ''container''
      in html_set main
           (Some (listsPass
                    (buildPagination serialize
                       (buildAccordion
                          (buildDetails
                             (tablesPass
                                (alertsPass bodyChildren))))))))"

section \<open>The command line (\<^verbatim>\<open>parseArgs\<close>, lines 32 to 46, and \<^verbatim>\<open>main\<close>, lines 384 to 408)\<close>

text \<open>
  \<open>args_input\<close> and \<open>args_output\<close> are \<^verbatim>\<open>args.input\<close> and \<^verbatim>\<open>args.output\<close>, with \<open>None\<close> for
  \<^verbatim>\<open>null\<close> and \<^verbatim>\<open>undefined\<close>. \<^verbatim>\<open>positional[0] || null\<close> is \<^verbatim>\<open>null\<close> for an empty first
  argument as well.
\<close>

record args =
  args_input :: "string option"
  args_output :: "string option"

function parseArgs_loop ::
  "string list \<Rightarrow> nat \<Rightarrow> string option \<Rightarrow> string list \<Rightarrow> string option \<times> string list" where
  "parseArgs_loop argv i out positional =
     (if i < length argv then
        (if argv ! i = ''-o'' \<or> argv ! i = ''--output'' then
           parseArgs_loop argv (i + 1 + 1)
             (if i + 1 < length argv then Some (argv ! (i + 1)) else None) positional
         else parseArgs_loop argv (i + 1) out (positional @ [argv ! i]))
      else (out, positional))"
  by pat_completeness auto
termination
  by (relation "measure (\<lambda>(argv, i, out, positional). length argv - i)") auto

declare parseArgs_loop.simps [simp del]

definition parseArgs :: "string list \<Rightarrow> args" where
  "parseArgs argv =
     (case parseArgs_loop argv 2 None [] of
        (out, positional) \<Rightarrow>
          \<lparr>args_input = (case positional of [] \<Rightarrow> None | p # ps \<Rightarrow> if p = [] then None else Some p),
           args_output = out\<rparr>)"

text \<open>
  What the program does to the world, as a trace: a line on the error stream
  (\<^verbatim>\<open>console.error\<close>), a write to the output stream, reading the input file, the call of
  the converter, writing the output file.
\<close>

datatype event =
    ConsoleError string
  | StdoutWrite string
  | ReadFile string
  | ConvertToHtml
  | WriteFile string string

text \<open>
  The collaborators are parameters: \<^verbatim>\<open>path.resolve\<close>; \<^verbatim>\<open>fs.readFileSync\<close> and
  \<^verbatim>\<open>mammoth.convertToHtml\<close>, which return a value or throw (\<open>Inl\<close>, with what
  \<^verbatim>\<open>console.error\<close> prints for it); \<^verbatim>\<open>cheerio.load\<close> of the converter's HTML in a \<^verbatim>\<open>body\<close>
  (\<open>load_body\<close>: the children of the body); the serialiser, for the whole tree and for a
  child sequence; and \<^verbatim>\<open>fs.writeFileSync\<close> (\<open>Some\<close> for what it throws). A converter
  message is the line printed for it (\<^verbatim>\<open>m.message || JSON.stringify(m)\<close>).
\<close>

record 'b system =
  resolve :: "string \<Rightarrow> string"
  readFileSync :: "string \<Rightarrow> string + 'b"
  convertToHtml :: "'b \<Rightarrow> string + string \<times> string list"
  load_body :: "string \<Rightarrow> node list"
  root_html :: "node \<Rightarrow> string"
  inner_html :: "node list \<Rightarrow> string"
  writeFileSync :: "string \<Rightarrow> string \<Rightarrow> string option"

definition usage :: string where
  "usage = ''Usage: node docx_to_gcweb_html_extended.js input.docx -o output.html''"

definition warnings :: "string list \<Rightarrow> event list" where
  "warnings messages =
     (if messages = [] then []
      else ConsoleError ''mammoth messages:'' # map (\<lambda>m. ConsoleError ('' - '' @ m)) messages)"

text \<open>
  \<open>main\<close> returns the trace and the exit status. \<^verbatim>\<open>process.exit(2)\<close> ends the run at the
  usage message; an exception anywhere after it reaches the \<^verbatim>\<open>catch\<close> of line 405, which
  prints it and exits with 1; a run that comes to its end exits with 0.
\<close>

definition main :: "'b system \<Rightarrow> string list \<Rightarrow> event list \<times> nat" where
  "main sys argv =
     (let args = parseArgs argv in
      case args_input args of
        None \<Rightarrow> ([ConsoleError usage], 2)
      | Some inp \<Rightarrow>
          (let inputPath = resolve sys inp in
           case readFileSync sys inputPath of
             Inl err \<Rightarrow> ([ReadFile inputPath, ConsoleError err], 1)
           | Inr docxBuffer \<Rightarrow>
               (case convertToHtml sys docxBuffer of
                  Inl err \<Rightarrow> ([ReadFile inputPath, ConvertToHtml, ConsoleError err], 1)
                | Inr (value, messages) \<Rightarrow>
                    (let html = root_html sys
                                  (transformPlaceholdersToGCWeb (inner_html sys)
                                     (load_body sys value));
                         before = [ReadFile inputPath, ConvertToHtml] @ warnings messages
                     in case (case args_output args of None \<Rightarrow> None
                              | Some out \<Rightarrow> if out = [] then None else Some out) of
                          None \<Rightarrow> (before @ [StdoutWrite html], 0)
                        | Some out \<Rightarrow>
                            (case writeFileSync sys (resolve sys out) html of
                               None \<Rightarrow> (before @ [WriteFile (resolve sys out) html], 0)
                             | Some err \<Rightarrow> (before @ [ConsoleError err], 1))))))"







section \<open>The alert pass as a recursion over the tree\<close>

text \<open>The numbers in a forest, in document order.\<close>

fun labels :: "lnode list \<Rightarrow> nat list" where
  "labels [] = []"
| "labels (LElement l t a cs # ns) = opt_list l @ labels cs @ labels ns"
| "labels (LText s # ns) = labels ns"
| "labels (LComment s # ns) = labels ns"

lemma labels_append: "labels (xs @ ys) = labels xs @ labels ys"
  by (induction xs rule: labels.induct) auto

lemma select_append: "select P (xs @ ys) = select P xs @ select P ys"
  by (induction P xs rule: select.induct) auto

lemma select_subset: "set (select P ts) \<subseteq> set (labels ts)"
  by (induction P ts rule: select.induct) auto

lemma strip_append: "strip (xs @ ys) = strip xs @ strip ys"
  by (induction xs rule: strip.induct) auto

text \<open>The loop of \<^verbatim>\<open>each\<close> over a list of numbers.\<close>

definition alert_run :: "nat list \<Rightarrow> lnode list \<Rightarrow> lnode list" where
  "alert_run ids d = foldl (\<lambda>d i. alert_each i d) d ids"

lemma alert_run_Nil: "alert_run [] d = d"
  by (simp add: alert_run_def)

lemma alert_run_Cons: "alert_run (i # ids) d = alert_run ids (alert_each i d)"
  by (simp add: alert_run_def)

lemma alert_run_app: "alert_run (us @ vs) d = alert_run vs (alert_run us d)"
  by (simp add: alert_run_def)

lemma alert_each_append: "alert_each i (xs @ ys) = alert_each i xs @ alert_each i ys"
  by (induction i xs rule: alert_each.induct) auto

lemma alert_run_append: "alert_run ids (xs @ ys) = alert_run ids xs @ alert_run ids ys"
  by (induction ids arbitrary: xs ys) (simp_all add: alert_run_Nil alert_run_Cons alert_each_append)

lemma alert_each_absent: "i \<notin> set (labels ts) \<Longrightarrow> alert_each i ts = ts"
  by (induction i ts rule: alert_each.induct) auto

lemma alert_run_absent: "\<forall>i\<in>set ids. i \<notin> set (labels ts) \<Longrightarrow> alert_run ids ts = ts"
  by (induction ids) (simp_all add: alert_run_Nil alert_run_Cons alert_each_absent)

lemma alert_section_shape:
  "alert_section a ls =
     LElement None ''section''
       [(''class'', trim (join_space (split_space []
           (''alert alert-'' @ replace_first ''alert-'' [] (data_wet a)))))] ls"
  by (simp add: alert_section_def new_element_def)

lemma alert_each_single:
  "l \<noteq> Some i \<Longrightarrow> alert_each i [LElement l t a cs] = [LElement l t a (alert_each i cs)]"
  by simp

lemma alert_run_single:
  "\<forall>i\<in>set ids. l \<noteq> Some i \<Longrightarrow>
     alert_run ids [LElement l t a cs] = [LElement l t a (alert_run ids cs)]"
  by (induction ids arbitrary: cs) (simp_all add: alert_run_Nil alert_run_Cons)

lemma alert_run_hit:
  "alert_run (i # ids) [LElement (Some i) t a cs] =
     [alert_section a (alert_run ids (opt_list (first_p cs)))]"
  by (simp add: alert_run_Cons alert_section_shape alert_run_single)


text \<open>
  What the loop amounts to on a numbered forest: every marker that the walk from the
  roots reaches becomes a section around its first paragraph, which is walked in turn;
  the rest of what the marker held is dropped with it.
\<close>

lemma first_p_size: "size_list size (opt_list (first_p cs)) \<le> size_list size cs"
  by (induction cs rule: first_p.induct) (auto split: option.splits)

function alerts_l :: "lnode list \<Rightarrow> lnode list" where
  "alerts_l [] = []"
| "alerts_l (LElement l t a cs # ns) =
     (if wet_prefix ''alert-'' (Element t a [])
      then alert_section a (alerts_l (opt_list (first_p cs)))
      else LElement l t a (alerts_l cs)) # alerts_l ns"
| "alerts_l (LText s # ns) = LText s # alerts_l ns"
| "alerts_l (LComment s # ns) = LComment s # alerts_l ns"
  by pat_completeness auto
termination
proof (relation "measure (size_list size)", goal_cases)
  case (2 l t a cs ns)
  from first_p_size [of cs] show ?case by simp
qed simp_all

fun numbered :: "lnode list \<Rightarrow> bool" where
  "numbered [] = True"
| "numbered (LElement l t a cs # ns) = (l \<noteq> None \<and> numbered cs \<and> numbered ns)"
| "numbered (LText s # ns) = numbered ns"
| "numbered (LComment s # ns) = numbered ns"

lemma first_p_labels: "first_p cs = Some p \<Longrightarrow> set (labels [p]) \<subseteq> set (labels cs)"
  by (induction cs rule: first_p.induct) (auto split: if_splits option.splits)

lemma first_p_numbered: "first_p cs = Some p \<Longrightarrow> numbered cs \<Longrightarrow> numbered [p]"
  by (induction cs rule: first_p.induct) (auto split: if_splits option.splits)

lemma first_p_distinct: "first_p cs = Some p \<Longrightarrow> distinct (labels cs) \<Longrightarrow> distinct (labels [p])"
  by (induction cs rule: first_p.induct) (auto split: if_splits option.splits)

lemma filter_select_id: "filter (\<lambda>i. i \<in> set (labels ts)) (select P ts) = select P ts"
  using select_subset [of P ts] by (auto intro: filter_True)

lemma filter_select_none:
  "set (labels ts) \<inter> A = {} \<Longrightarrow> filter (\<lambda>i. i \<in> A) (select P ts) = []"
  using select_subset [of P ts] by (auto simp: filter_empty_conv)

lemma first_p_select:
  "first_p cs = Some p \<Longrightarrow> distinct (labels cs) \<Longrightarrow>
     filter (\<lambda>i. i \<in> set (labels [p])) (select P cs) = select P [p]"
proof (induction cs rule: first_p.induct)
  case 1
  then show ?case by simp
next
  case (2 l t a cs ns)
  show ?case
  proof (cases "t = ''p''")
    case True
    with "2.prems" have p: "p = LElement l t a cs" by simp
    from "2.prems"(2) have dis: "set (labels ns) \<inter> set (labels [p]) = {}"
      by (auto simp: p)
    have "filter (\<lambda>i. i \<in> set (labels [p])) (select P (LElement l t a cs # ns)) =
            filter (\<lambda>i. i \<in> set (labels [p])) (select P [p]) @
            filter (\<lambda>i. i \<in> set (labels [p])) (select P ns)"
      by (simp add: p)
    also have "\<dots> = select P [p]"
      by (simp only: filter_select_id filter_select_none [OF dis] append_Nil2)
    finally show ?thesis .
  next
    case np: False
    show ?thesis
    proof (cases "first_p cs")
      case None
      with np "2.prems" have f: "first_p ns = Some p" by simp
      from "2.prems"(2) have d: "distinct (labels ns)" by simp
      from first_p_labels [OF f] "2.prems"(2)
      have dis: "set (labels cs) \<inter> set (labels [p]) = {}" and
        nl: "\<forall>x. l = Some x \<longrightarrow> x \<notin> set (labels [p])"
        by auto
      from "2.IH"(2) [OF np None f d] filter_select_none [OF dis, of P] nl
      show ?thesis by (cases l) auto
    next
      case (Some r)
      with np "2.prems" have f: "first_p cs = Some p" by simp
      from "2.prems"(2) have d: "distinct (labels cs)" by simp
      from first_p_labels [OF f] "2.prems"(2)
      have dis: "set (labels ns) \<inter> set (labels [p]) = {}" and
        nl: "\<forall>x. l = Some x \<longrightarrow> x \<notin> set (labels [p])"
        by auto
      from "2.IH"(1) [OF np f d] filter_select_none [OF dis, of P] nl
      show ?thesis by (cases l) auto
    qed
  qed
next
  case (3 s ns)
  then show ?case by simp
next
  case (4 s ns)
  then show ?case by simp
qed


lemma filter_sub:
  assumes "filter (\<lambda>i. i \<in> A) ids = xs" and "B \<subseteq> A"
  shows "filter (\<lambda>i. i \<in> B) ids = filter (\<lambda>i. i \<in> B) xs"
proof -
  have "filter (\<lambda>i. i \<in> B) (filter (\<lambda>i. i \<in> A) ids) = filter (\<lambda>i. i \<in> B) ids"
    using assms(2) by (auto intro: filter_cong)
  with assms(1) show ?thesis by simp
qed

lemma alert_run_eq:
  "numbered ts \<Longrightarrow> distinct (labels ts) \<Longrightarrow>
   filter (\<lambda>i. i \<in> set (labels ts)) ids = select (wet_prefix ''alert-'') ts \<Longrightarrow>
     alert_run ids ts = alerts_l ts"
proof (induction ts arbitrary: ids rule: alerts_l.induct)
  case 1
  then show ?case by (simp add: alert_run_absent)
next
  case (2 l t a cs ns)
  let ?P = "wet_prefix ''alert-''"
  let ?n = "LElement l t a cs"
  from "2.prems"(1) obtain x where l: "l = Some x" and ncs: "numbered cs" and nns: "numbered ns"
    by auto
  from "2.prems"(2) l have dcs: "distinct (labels cs)" and dns: "distinct (labels ns)"
    and xcs: "x \<notin> set (labels cs)" and xns: "x \<notin> set (labels ns)"
    and disj: "set (labels cs) \<inter> set (labels ns) = {}"
    by auto
  have sel: "filter (\<lambda>i. i \<in> set (labels (?n # ns))) ids = select ?P [?n] @ select ?P ns"
    using "2.prems"(3) by simp
  \<comment> \<open>the siblings after the node\<close>
  have "filter (\<lambda>i. i \<in> set (labels ns)) ids =
          filter (\<lambda>i. i \<in> set (labels ns)) (select ?P [?n] @ select ?P ns)"
    by (rule filter_sub [OF sel]) auto
  also have "\<dots> = select ?P ns"
  proof -
    have "set (labels [?n]) \<inter> set (labels ns) = {}" using l xns disj by auto
    from filter_select_none [OF this, of ?P] show ?thesis
      by (simp add: filter_select_id)
  qed
  finally have ids_ns: "filter (\<lambda>i. i \<in> set (labels ns)) ids = select ?P ns" .
  \<comment> \<open>the node itself\<close>
  have "filter (\<lambda>i. i \<in> set (labels [?n])) ids =
          filter (\<lambda>i. i \<in> set (labels [?n])) (select ?P [?n] @ select ?P ns)"
    by (rule filter_sub [OF sel]) auto
  also have "\<dots> = select ?P [?n]"
  proof -
    have "set (labels ns) \<inter> set (labels [?n]) = {}" using l xns disj by auto
    from filter_select_none [OF this, of ?P] show ?thesis
      by (simp only: filter_append filter_select_id append_Nil2)
  qed
  finally have ids_n: "filter (\<lambda>i. i \<in> set (labels [?n])) ids = select ?P [?n]" .
  have split: "alert_run ids (?n # ns) = alert_run ids [?n] @ alert_run ids ns"
    using alert_run_append [of ids "[?n]" ns] by simp
  show ?case
  proof (cases "?P (Element t a [])")
    case False
    from "2.IH"(3) [OF nns dns ids_ns] have tail: "alert_run ids ns = alerts_l ns" .
    from ids_n False l have f: "filter (\<lambda>i. i \<in> set (labels [?n])) ids = select ?P cs" by simp
    have nx: "x \<notin> set ids"
    proof
      assume "x \<in> set ids"
      then have "x \<in> set (filter (\<lambda>i. i \<in> set (labels [?n])) ids)" using l by simp
      with f select_subset [of ?P cs] xcs show False by auto
    qed
    have "filter (\<lambda>i. i \<in> set (labels cs)) ids = filter (\<lambda>i. i \<in> set (labels cs)) (select ?P cs)"
      by (rule filter_sub [OF f]) auto
    then have "filter (\<lambda>i. i \<in> set (labels cs)) ids = select ?P cs"
      by (simp add: filter_select_id)
    from "2.IH"(2) [OF False ncs dcs this] have kids: "alert_run ids cs = alerts_l cs" .
    from nx l have "alert_run ids [?n] = [LElement l t a (alert_run ids cs)]"
      by (intro alert_run_single) auto
    with split tail kids False show ?thesis by simp
  next
    case True
    from "2.IH"(3) [OF nns dns ids_ns] have tail: "alert_run ids ns = alerts_l ns" .
    from ids_n True l have f: "filter (\<lambda>i. i \<in> set (labels [?n])) ids = x # select ?P cs" by simp
    then obtain us vs where ids: "ids = us @ x # vs"
      and us: "\<forall>u\<in>set us. u \<notin> set (labels [?n])"
      and vs: "filter (\<lambda>i. i \<in> set (labels [?n])) vs = select ?P cs"
      by (auto simp: filter_eq_Cons_iff)
    have "alert_run ids [?n] = alert_run (x # vs) (alert_run us [?n])"
      by (simp add: ids alert_run_app)
    also have "\<dots> = alert_run (x # vs) [?n]"
      using us by (simp only: alert_run_absent)
    also have "\<dots> = [alert_section a (alert_run vs (opt_list (first_p cs)))]"
      by (simp only: l alert_run_hit)
    finally have hit: "alert_run ids [?n] = [alert_section a (alert_run vs (opt_list (first_p cs)))]" .
    have "alert_run vs (opt_list (first_p cs)) = alerts_l (opt_list (first_p cs))"
    proof (cases "first_p cs")
      case None
      then show ?thesis by (simp add: alert_run_absent)
    next
      case (Some p)
      have "filter (\<lambda>i. i \<in> set (labels [p])) vs =
              filter (\<lambda>i. i \<in> set (labels [p])) (select ?P cs)"
        by (rule filter_sub [OF vs]) (use first_p_labels [OF Some] in auto)
      also have "\<dots> = select ?P [p]" by (rule first_p_select [OF Some dcs])
      finally have "filter (\<lambda>i. i \<in> set (labels (opt_list (first_p cs)))) vs =
                      select ?P (opt_list (first_p cs))"
        by (simp add: Some)
      moreover have "numbered (opt_list (first_p cs))"
        using first_p_numbered [OF Some ncs] by (simp add: Some)
      moreover have "distinct (labels (opt_list (first_p cs)))"
        using first_p_distinct [OF Some dcs] by (simp add: Some)
      ultimately show ?thesis by (rule "2.IH"(1) [OF True, rotated 2]) 
    qed
    with split tail hit True show ?thesis by simp
  qed
next
  case (3 s ns)
  have "alert_run ids (LText s # ns) = alert_run ids [LText s] @ alert_run ids ns"
    using alert_run_append [of ids "[LText s]" ns] by simp
  moreover have "alert_run ids [LText s] = [LText s]" by (simp add: alert_run_absent)
  moreover from "3.prems" have "alert_run ids ns = alerts_l ns" by (intro "3.IH") simp_all
  ultimately show ?case by simp
next
  case (4 s ns)
  have "alert_run ids (LComment s # ns) = alert_run ids [LComment s] @ alert_run ids ns"
    using alert_run_append [of ids "[LComment s]" ns] by simp
  moreover have "alert_run ids [LComment s] = [LComment s]" by (simp add: alert_run_absent)
  moreover from "4.prems" have "alert_run ids ns = alerts_l ns" by (intro "4.IH") simp_all
  ultimately show ?case by simp
qed


lemma number_props:
  "number c ns = (ls, c') \<Longrightarrow>
     numbered ls \<and> c \<le> c' \<and> set (labels ls) \<subseteq> {c..<c'} \<and> distinct (labels ls) \<and>
     strip ls = ns"
proof (induction c ns arbitrary: ls c' rule: number.induct)
  case (1 c)
  then show ?case by simp
next
  case (2 c t a cs ns)
  obtain cs' c1 where n1: "number (Suc c) cs = (cs', c1)" by (cases "number (Suc c) cs") auto
  obtain ns' c2 where n2: "number c1 ns = (ns', c2)" by (cases "number c1 ns") auto
  from "2.prems" n1 n2 have ls: "ls = LElement (Some c) t a cs' # ns'" and c': "c' = c2"
    by simp_all
  from "2.IH"(1) [OF n1] have p1: "numbered cs'" "Suc c \<le> c1" "set (labels cs') \<subseteq> {Suc c..<c1}"
    "distinct (labels cs')" "strip cs' = cs" by simp_all
  from "2.IH"(2) [OF n1 [symmetric] n2] have p2: "numbered ns'" "c1 \<le> c2"
    "set (labels ns') \<subseteq> {c1..<c2}" "distinct (labels ns')" "strip ns' = ns" by simp_all
  from p1(3) p2(3) have "set (labels cs') \<inter> set (labels ns') = {}"
    by fastforce
  with p1 p2 show ?case unfolding ls c' by (auto simp: subset_iff)
next
  case (3 c s ns)
  obtain ns' c2 where n2: "number c ns = (ns', c2)" by (cases "number c ns") auto
  with "3.prems" "3.IH" [OF n2] show ?case by auto
next
  case (4 c s ns)
  obtain ns' c2 where n2: "number c ns = (ns', c2)" by (cases "number c ns") auto
  with "4.prems" "4.IH" [OF n2] show ?case by auto
qed

text \<open>
  The same on the tree without numbers. \<open>first_paragraph\<close> is
  \<^verbatim>\<open>find("p").first()\<close> there, and \<open>alert_class\<close> the class that \<^verbatim>\<open>addClass\<close> gives
  the new section.
\<close>

fun first_paragraph :: "node list \<Rightarrow> node option" where
  "first_paragraph [] = None"
| "first_paragraph (Element t a cs # ns) =
     (if t = ''p'' then Some (Element t a cs)
      else (case first_paragraph cs of Some r \<Rightarrow> Some r | None \<Rightarrow> first_paragraph ns))"
| "first_paragraph (Text s # ns) = first_paragraph ns"
| "first_paragraph (Comment s # ns) = first_paragraph ns"

lemma first_paragraph_size: "size_list size (opt_list (first_paragraph cs)) \<le> size_list size cs"
  by (induction cs rule: first_paragraph.induct) (auto split: option.splits)

definition alert_class :: "attrs \<Rightarrow> string" where
  "alert_class a =
     trim (join_space (split_space []
       (''alert alert-'' @ replace_first ''alert-'' [] (data_wet a))))"

function alerts_plain :: "node list \<Rightarrow> node list" where
  "alerts_plain [] = []"
| "alerts_plain (Element t a cs # ns) =
     (if wet_prefix ''alert-'' (Element t a cs)
      then Element ''section'' [(''class'', alert_class a)]
             (alerts_plain (opt_list (first_paragraph cs)))
      else Element t a (alerts_plain cs)) # alerts_plain ns"
| "alerts_plain (Text s # ns) = Text s # alerts_plain ns"
| "alerts_plain (Comment s # ns) = Comment s # alerts_plain ns"
  by pat_completeness auto
termination
proof (relation "measure (size_list size)", goal_cases)
  case (2 t a cs ns)
  from first_paragraph_size [of cs] show ?case by simp
qed simp_all

lemma strip_Nil: "(strip xs = []) = (xs = [])"
  by (cases xs rule: strip.cases) simp_all

lemma strip_first_p: "strip (opt_list (first_p cs)) = opt_list (first_paragraph (strip cs))"
proof (induction cs rule: first_p.induct)
  case (2 l t a cs ns)
  show ?case
  proof (cases "t = ''p''")
    case True
    then show ?thesis by simp
  next
    case False
    show ?thesis
    proof (cases "first_p cs")
      case None
      with False "2.IH"(1) have "first_paragraph (strip cs) = None"
        by (cases "first_paragraph (strip cs)") simp_all
      with False None "2.IH"(2) show ?thesis by simp
    next
      case (Some r)
      with False "2.IH"(1) obtain q where "first_paragraph (strip cs) = Some q"
        by (cases "first_paragraph (strip cs)") (simp_all add: strip_Nil)
      with False Some "2.IH"(1) show ?thesis by simp
    qed
  qed
qed simp_all

lemma wet_prefix_shallow: "wet_prefix p (Element t a cs) = wet_prefix p (Element t a [])"
  by (simp add: wet_prefix_def)

lemma strip_alerts_l: "strip (alerts_l ts) = alerts_plain (strip ts)"
proof (induction ts rule: alerts_l.induct)
  case (2 l t a cs ns)
  then show ?case
    by (simp add: alert_section_shape alert_class_def strip_first_p
          wet_prefix_shallow [of _ _ _ "strip cs"])
qed simp_all

lemma alertsPass_plain: "alertsPass ns = alerts_plain ns"
proof -
  obtain ls c' where n: "number 0 ns = (ls, c')" by (cases "number 0 ns") auto
  from number_props [OF n] have p: "numbered ls" "distinct (labels ls)" "strip ls = ns"
    by simp_all
  have "alert_run (select (wet_prefix ''alert-'') ls) ls = alerts_l ls"
    by (rule alert_run_eq [OF p(1) p(2)]) (rule filter_select_id)
  then have "alertsPass ns = strip (alerts_l ls)"
    by (simp add: alertsPass_def n alert_run_def)
  with p(3) show ?thesis by (simp add: strip_alerts_l)
qed

lemma alerts_plain_append: "alerts_plain (xs @ ys) = alerts_plain xs @ alerts_plain ys"
  by (induction xs rule: alerts_plain.induct) simp_all

lemma alerts_plain_closed: "\<not> occurs (wet_prefix ''alert-'') (alerts_plain ns)"
  by (induction ns rule: alerts_plain.induct)
     (simp_all add: wet_prefix_def wet_prefix_shallow)

lemma alerts_plain_id: "\<not> occurs (wet_prefix ''alert-'') ns \<Longrightarrow> alerts_plain ns = ns"
  by (induction ns rule: alerts_plain.induct) simp_all


lemma replace_first_prefix: "p \<noteq> [] \<Longrightarrow> replace_first p r (p @ s) = r @ s"
  by (cases p) simp_all

lemma alert_class_kinds:
  "map_of a ''data-wet'' = Some (''alert-'' @ kind) \<Longrightarrow>
   kind \<in> set [''success'', ''info'', ''warning'', ''danger''] \<Longrightarrow>
     alert_class a = ''alert alert-'' @ kind"
proof -
  assume a: "map_of a ''data-wet'' = Some (''alert-'' @ kind)"
    and k: "kind \<in> set [''success'', ''info'', ''warning'', ''danger'']"
  from a have "replace_first ''alert-'' [] (data_wet a) = kind"
    using replace_first_prefix [of "''alert-''" "[]" kind] by (simp add: data_wet_def)
  then have c: "alert_class a = trim (join_space (split_space [] (''alert alert-'' @ kind)))"
    by (simp add: alert_class_def)
  from k consider "kind = ''success''" | "kind = ''info''" | "kind = ''warning''"
    | "kind = ''danger''" by auto
  then show ?thesis
    by cases (simp_all add: c trim_def is_space_def)
qed

section \<open>The table and list passes as recursions over the tree\<close>

text \<open>
  Both passes run one callback for each selected marker, and the callback works on the
  sibling list of its marker: it looks for the first later sibling with the target tag,
  edits it or loses it, and removes the marker. This section proves that the fold over the
  selection is a recursion over the plain tree (\<open>tablesPass_plain\<close>, \<open>listsPass_plain\<close>).
\<close>

subsection \<open>The callback on the later siblings\<close>

text \<open>
  What a callback does to the siblings after its marker: the first one with the target
  tag is edited (\<open>Some\<close>) or leaves the list (\<open>None\<close>); with no target the siblings stay as
  they are. \<open>table_target\<close> and \<open>list_target\<close> are the two cases of the program, and
  \<open>table_callback_later\<close> and \<open>list_callback_later\<close> say that each callback is the
  siblings before the marker followed by the later ones so treated.
\<close>

definition later_effect ::
  "(node \<Rightarrow> bool) \<Rightarrow> (lnode \<Rightarrow> lnode option) \<Rightarrow> lnode list \<Rightarrow> lnode list" where
  "later_effect T g later =
     (case first_index (\<lambda>n. T (shallow n)) later of
        None \<Rightarrow> later
      | Some d \<Rightarrow> (case g (later ! d) of
                     None \<Rightarrow> remove_at d later
                   | Some n' \<Rightarrow> later[d := n']))"

definition table_target :: "string \<Rightarrow> lnode \<Rightarrow> lnode option" where
  "table_target kind n =
     (if kind = ''table-responsive'' then None
      else (case tableClassMap kind of
              Some c \<Rightarrow> Some (on_element (\<lambda>e. attr_set e ''class'' c) n)
            | None \<Rightarrow> Some n))"

definition list_target :: "string \<Rightarrow> lnode \<Rightarrow> lnode option" where
  "list_target kind n = Some (on_element (\<lambda>e. addClass e kind) n)"

fun lattrs :: "lnode \<Rightarrow> attrs" where
  "lattrs (LElement l t a cs) = a"
| "lattrs (LText s) = []"
| "lattrs (LComment s) = []"

lemma first_index_less: "first_index P xs = Some d \<Longrightarrow> d < length xs"
  by (induction xs arbitrary: d) (auto split: if_splits)

lemma remove_at_remove_at:
  assumes "k < length xs"
  shows "remove_at k (remove_at (Suc (k + d)) xs) = take k xs @ remove_at d (drop (Suc k) xs)"
proof -
  have "xs = take k xs @ xs ! k # drop (Suc k) xs"
    using assms by (simp add: id_take_nth_drop)
  then obtain x ys where xs: "xs = take k xs @ x # ys" and ys: "ys = drop (Suc k) xs" by blast
  let ?p = "take k xs"
  have lp: "length ?p = k" using assms by simp
  have "remove_at (Suc (k + d)) (?p @ x # ys) = ?p @ x # remove_at d ys"
    using lp by (simp add: remove_at_def)
  moreover have "remove_at k (?p @ x # remove_at d ys) = ?p @ remove_at d ys"
    using lp by (simp add: remove_at_def)
  ultimately show ?thesis using xs ys by simp
qed

lemma remove_at_update:
  assumes "k < length xs"
  shows "remove_at k (xs[Suc (k + d) := v]) = take k xs @ (drop (Suc k) xs)[d := v]"
proof -
  have "xs = take k xs @ xs ! k # drop (Suc k) xs"
    using assms by (simp add: id_take_nth_drop)
  then obtain x ys where xs: "xs = take k xs @ x # ys" and ys: "ys = drop (Suc k) xs" by blast
  let ?p = "take k xs"
  have lp: "length ?p = k" using assms by simp
  have "(?p @ x # ys)[Suc (k + d) := v] = ?p @ x # ys[d := v]"
    using lp by (simp add: list_update_append)
  moreover have "remove_at k (?p @ x # ys[d := v]) = ?p @ ys[d := v]"
    using lp by (simp add: remove_at_def)
  ultimately show ?thesis using xs ys by simp
qed

lemma remove_at_self:
  "k < length xs \<Longrightarrow> remove_at k xs = take k xs @ drop (Suc k) xs"
  by (simp add: remove_at_def)

lemma table_callback_later:
  "k < length sibs \<Longrightarrow>
     table_callback k sibs =
       take k sibs @
       later_effect (is_tag ''table'') (table_target (data_wet (lattrs (sibs ! k))))
         (drop (Suc k) sibs)"
proof -
  assume k: "k < length sibs"
  let ?kind = "data_wet (lattrs (sibs ! k))"
  let ?later = "drop (Suc k) sibs"
  have a: "(case sibs ! k of LElement l t a cs \<Rightarrow> a | LText s \<Rightarrow> [] | LComment s \<Rightarrow> []) =
             lattrs (sibs ! k)"
    by (cases "sibs ! k") simp_all
  show ?thesis
  proof (cases "first_index (\<lambda>n. is_tag ''table'' (shallow n)) ?later")
    case None
    then have "next_sibling (is_tag ''table'') k sibs = None"
      by (simp add: next_sibling_def)
    with k None show ?thesis
      by (simp add: table_callback_def later_effect_def remove_at_self)
  next
    case (Some d)
    let ?m = "Suc (k + d)"
    from Some have ns: "next_sibling (is_tag ''table'') k sibs = Some ?m"
      by (simp add: next_sibling_def)
    from first_index_less [OF Some] k have d: "?m < length sibs" by simp
    then have nth: "sibs ! ?m = ?later ! d" by simp
    show ?thesis
    proof (cases "?kind = ''table-responsive''")
      case True
      let ?wrap = "fresh (addClass (new_element ''div'') ''table-responsive'') []"
      have "replaceWith_child (label (sibs ! ?m)) (fst (append_moved ?wrap ?m sibs))
              (append_moved ?wrap ?m sibs) = remove_at ?m sibs"
        by (simp add: append_moved_def replaceWith_child_def new_element_def trim_def
              is_space_def)
      with True ns have "table_callback k sibs = remove_at k (remove_at ?m sibs)"
        by (simp add: table_callback_def a Let_def)
      also have "\<dots> = take k sibs @ remove_at d ?later"
        by (rule remove_at_remove_at [OF k])
      finally show ?thesis
        using True Some by (simp add: later_effect_def table_target_def)
    next
      case False
      show ?thesis
      proof (cases "tableClassMap ?kind")
        case None
        with False ns have "table_callback k sibs = remove_at k sibs"
          by (simp add: table_callback_def a Let_def)
        with k False None Some list_update_id [of ?later d] d show ?thesis
          by (simp add: later_effect_def table_target_def remove_at_self)
      next
        case (Some c)
        let ?v = "on_element (\<lambda>e. attr_set e ''class'' c) (sibs ! ?m)"
        from False ns Some have "table_callback k sibs = remove_at k (sibs[?m := ?v])"
          by (simp add: table_callback_def a Let_def)
        also have "\<dots> = take k sibs @ ?later[d := ?v]"
          by (rule remove_at_update [OF k])
        finally show ?thesis
          using False Some \<open>first_index _ ?later = Some d\<close> nth
          by (simp add: later_effect_def table_target_def)
      qed
    qed
  qed
qed

lemma list_callback_later:
  "k < length sibs \<Longrightarrow>
     list_callback k sibs =
       take k sibs @
       later_effect (\<lambda>n. is_tag ''ul'' n \<or> is_tag ''ol'' n)
         (list_target (data_wet (lattrs (sibs ! k)))) (drop (Suc k) sibs)"
proof -
  assume k: "k < length sibs"
  let ?kind = "data_wet (lattrs (sibs ! k))"
  let ?later = "drop (Suc k) sibs"
  let ?T = "\<lambda>n. is_tag ''ul'' n \<or> is_tag ''ol'' n"
  have a: "(case sibs ! k of LElement l t a cs \<Rightarrow> a | LText s \<Rightarrow> [] | LComment s \<Rightarrow> []) =
             lattrs (sibs ! k)"
    by (cases "sibs ! k") simp_all
  show ?thesis
  proof (cases "first_index (\<lambda>n. ?T (shallow n)) ?later")
    case None
    then have "next_sibling ?T k sibs = None"
      by (simp add: next_sibling_def)
    with k None show ?thesis
      by (simp add: list_callback_def later_effect_def remove_at_self)
  next
    case (Some d)
    let ?m = "Suc (k + d)"
    from Some have ns: "next_sibling ?T k sibs = Some ?m"
      by (simp add: next_sibling_def)
    from first_index_less [OF Some] k have d: "?m < length sibs" by simp
    then have nth: "sibs ! ?m = ?later ! d" by simp
    let ?v = "on_element (\<lambda>e. addClass e ?kind) (sibs ! ?m)"
    from ns have "list_callback k sibs = remove_at k (sibs[?m := ?v])"
      by (simp add: list_callback_def a Let_def)
    also have "\<dots> = take k sibs @ ?later[d := ?v]"
      by (rule remove_at_update [OF k])
    finally show ?thesis
      using Some nth by (simp add: later_effect_def list_target_def)
  qed
qed

subsection \<open>Callbacks by number\<close>

text \<open>
  A target is edited in its attributes only, and never in \<^verbatim>\<open>data-wet\<close>: \<open>attrs_only\<close>. A
  callback of this shape (\<open>callback_of\<close>) keeps the numbers of the nodes it keeps, so the
  callbacks for the numbers of one part of the tree leave the other parts alone, and the
  callback for a number that has left the tree is no step at all.
\<close>

definition attrs_only :: "lnode \<Rightarrow> lnode \<Rightarrow> bool" where
  "attrs_only n n' =
     (label n' = label n \<and> lcontents n' = lcontents n \<and>
      (case n of
         LElement l t a cs \<Rightarrow>
           (case n' of
              LElement l' t' a' cs' \<Rightarrow> t' = t \<and> map_of a' ''data-wet'' = map_of a ''data-wet''
            | LText s \<Rightarrow> False
            | LComment s \<Rightarrow> False)
       | LText s \<Rightarrow> n' = n
       | LComment s \<Rightarrow> n' = n))"

definition callback_of ::
  "(nat \<Rightarrow> lnode list \<Rightarrow> lnode list) \<Rightarrow> (node \<Rightarrow> bool) \<Rightarrow> (string \<Rightarrow> lnode \<Rightarrow> lnode option) \<Rightarrow> bool"
  where
  "callback_of f T tg =
     ((\<forall>k sibs. k < length sibs \<longrightarrow>
         f k sibs =
           take k sibs @
           later_effect T (tg (data_wet (lattrs (sibs ! k)))) (drop (Suc k) sibs)) \<and>
      (\<forall>kind n n'. tg kind n = Some n' \<longrightarrow> attrs_only n n'))"

lemma labels_single_attrs_only: "attrs_only n n' \<Longrightarrow> labels [n'] = labels [n]"
  by (cases n; cases n') (auto simp: attrs_only_def)

lemma labels_Cons: "labels (n # ns) = labels [n] @ labels ns"
  using labels_append [of "[n]" ns] by simp

lemma labels_update:
  "d < length xs \<Longrightarrow> attrs_only (xs ! d) n' \<Longrightarrow> labels (xs[d := n']) = labels xs"
proof (induction xs arbitrary: d)
  case Nil
  then show ?case by simp
next
  case (Cons x xs)
  show ?case
  proof (cases d)
    case 0
    with Cons.prems have "labels [n'] = labels [x]"
      by (simp add: labels_single_attrs_only)
    with 0 labels_Cons [of n' xs] labels_Cons [of x xs] show ?thesis by simp
  next
    case (Suc e)
    with Cons.prems have "labels (xs[e := n']) = labels xs"
      by (intro Cons.IH) simp_all
    with Suc labels_Cons [of x "xs[e := n']"] labels_Cons [of x xs] show ?thesis by simp
  qed
qed

lemma labels_remove_at:
  "d < length xs \<Longrightarrow>
     labels xs = labels (take d xs) @ labels [xs ! d] @ labels (drop (Suc d) xs) \<and>
     labels (remove_at d xs) = labels (take d xs) @ labels (drop (Suc d) xs)"
proof -
  assume d: "d < length xs"
  then have "xs = take d xs @ [xs ! d] @ drop (Suc d) xs"
    by (simp add: id_take_nth_drop)
  then have "labels xs = labels (take d xs @ [xs ! d] @ drop (Suc d) xs)" by simp
  then show ?thesis by (simp only: labels_append remove_at_def Suc_eq_plus1)
qed

lemma later_effect_cases:
  assumes "\<forall>n n'. g n = Some n' \<longrightarrow> attrs_only n n'"
  shows "later_effect T g later = later \<or>
         (\<exists>d. d < length later \<and> later_effect T g later = remove_at d later) \<or>
         (\<exists>d n'. d < length later \<and> attrs_only (later ! d) n' \<and>
                  later_effect T g later = later[d := n'])"
proof (cases "first_index (\<lambda>n. T (shallow n)) later")
  case None
  then show ?thesis by (simp add: later_effect_def)
next
  case (Some d)
  from first_index_less [OF Some] have d: "d < length later" .
  show ?thesis
  proof (cases "g (later ! d)")
    case None
    with Some d show ?thesis by (auto simp: later_effect_def)
  next
    case (Some n')
    with assms have "attrs_only (later ! d) n'" by simp
    with Some \<open>first_index _ later = Some d\<close> d show ?thesis
      by (auto simp: later_effect_def)
  qed
qed

lemma later_effect_labels:
  assumes g: "\<forall>n n'. g n = Some n' \<longrightarrow> attrs_only n n'"
  shows "set (labels (later_effect T g later)) \<subseteq> set (labels later) \<and>
         (distinct (labels later) \<longrightarrow> distinct (labels (later_effect T g later)))"
proof -
  from later_effect_cases [OF g, of T later]
  consider (same) "later_effect T g later = later"
    | (removed) d where "d < length later" "later_effect T g later = remove_at d later"
    | (updated) d n' where "d < length later" "attrs_only (later ! d) n'"
        "later_effect T g later = later[d := n']"
    by blast
  then show ?thesis
  proof cases
    case same
    then show ?thesis by simp
  next
    case (removed d)
    with labels_remove_at [OF removed(1)] show ?thesis by auto
  next
    case (updated d n')
    with labels_update [OF updated(1) updated(2)] show ?thesis by simp
  qed
qed


lemma callback_hit:
  assumes cb: "callback_of f T tg" and k: "first_index (\<lambda>n. label n = Some i) sibs = Some k"
  shows "each_at f i sibs =
           take k sibs @
           later_effect T (tg (data_wet (lattrs (sibs ! k)))) (drop (Suc k) sibs)"
  using cb first_index_less [OF k] k by (simp add: each_at_unfold callback_of_def)

lemma callback_target:
  "callback_of f T tg \<Longrightarrow> \<forall>n n'. tg kind n = Some n' \<longrightarrow> attrs_only n n'"
  by (simp add: callback_of_def)

lemma each_at_labels:
  assumes cb: "callback_of f T tg"
  shows "set (labels (each_at f i d)) \<subseteq> set (labels d) \<and>
         (distinct (labels d) \<longrightarrow> distinct (labels (each_at f i d)))"
    and "set (labels (below f i d)) \<subseteq> set (labels d) \<and>
         (distinct (labels d) \<longrightarrow> distinct (labels (below f i d)))"
  using cb
proof (induction f i d and f i d rule: each_at_below.induct)
  case (1 f i sibs)
  show ?case
  proof (cases "first_index (\<lambda>n. label n = Some i) sibs")
    case None
    with "1.IH" [OF None "1.prems"] show ?thesis by (simp add: each_at_unfold)
  next
    case (Some k)
    let ?E = "later_effect T (tg (data_wet (lattrs (sibs ! k)))) (drop (Suc k) sibs)"
    from first_index_less [OF Some] have k: "k < length sibs" .
    from later_effect_labels [OF callback_target [OF "1.prems"], where T = T
        and later = "drop (Suc k) sibs"]
    have E: "set (labels ?E) \<subseteq> set (labels (drop (Suc k) sibs))"
      "distinct (labels (drop (Suc k) sibs)) \<longrightarrow> distinct (labels ?E)" by auto
    from labels_remove_at [OF k]
    have l: "labels sibs = labels (take k sibs) @ labels [sibs ! k] @ labels (drop (Suc k) sibs)"
      by simp
    have r: "labels (each_at f i sibs) = labels (take k sibs) @ labels ?E"
      by (simp add: callback_hit [OF "1.prems" Some] labels_append)
    from E show ?thesis unfolding r l by auto
  qed
next
  case (2 f i)
  then show ?case by simp
next
  case (3 f i l t a cs ns)
  from "3.IH"(1) [OF "3.prems"] "3.IH"(2) [OF "3.prems"] show ?case
    by (cases l) auto
next
  case (4 f i s ns)
  then show ?case by simp
next
  case (5 f i s ns)
  then show ?case by simp
qed

lemma each_at_absent:
  shows "i \<notin> set (labels d) \<Longrightarrow> each_at f i d = d"
    and "i \<notin> set (labels d) \<Longrightarrow> below f i d = d"
proof (induction f i d and f i d rule: each_at_below.induct)
  case (1 f i sibs)
  have "first_index (\<lambda>n. label n = Some i) sibs = None"
  proof (cases "first_index (\<lambda>n. label n = Some i) sibs")
    case (Some k)
    from first_index_less [OF Some] have k: "k < length sibs" .
    have "label (sibs ! k) = Some i"
      using Some by (induction sibs arbitrary: k) (auto split: if_splits)
    then have "i \<in> set (labels [sibs ! k])" by (cases "sibs ! k") auto
    with labels_remove_at [OF k] "1.prems" show ?thesis by auto
  qed simp
  with "1.IH" "1.prems" show ?case by (simp add: each_at_unfold)
qed auto


definition run :: "(nat \<Rightarrow> lnode list \<Rightarrow> lnode list) \<Rightarrow> nat list \<Rightarrow> lnode list \<Rightarrow> lnode list" where
  "run f ids d = foldl (\<lambda>d i. each_at f i d) d ids"

lemma run_Nil: "run f [] d = d"
  by (simp add: run_def)

lemma run_Cons: "run f (i # ids) d = run f ids (each_at f i d)"
  by (simp add: run_def)

lemma first_index_label:
  "first_index (\<lambda>n. label n = Some i) ns = Some k \<Longrightarrow> i \<in> set (labels ns)"
proof (induction ns arbitrary: k)
  case Nil
  then show ?case by simp
next
  case (Cons n ns)
  show ?case
  proof (cases "label n = Some i")
    case True
    then have "i \<in> set (labels [n])" by (cases n) auto
    then show ?thesis using labels_Cons [of n ns] by simp
  next
    case False
    with Cons.prems obtain k' where "first_index (\<lambda>n. label n = Some i) ns = Some k'"
      by auto
    from Cons.IH [OF this] show ?thesis using labels_Cons [of n ns] by simp
  qed
qed

lemma each_at_Cons_other:
  assumes cb: "callback_of f T tg"
    and hd: "label n \<noteq> Some i"
    and kids: "first_index (\<lambda>n. label n = Some i) ns \<noteq> None \<longrightarrow> below f i [n] = [n]"
  shows "each_at f i (n # ns) = below f i [n] @ each_at f i ns"
proof (cases "first_index (\<lambda>n. label n = Some i) ns")
  case None
  with hd have "first_index (\<lambda>n. label n = Some i) (n # ns) = None" by simp
  then have "each_at f i (n # ns) = below f i (n # ns)" by (simp add: each_at_unfold)
  moreover from None have "each_at f i ns = below f i ns" by (simp add: each_at_unfold)
  ultimately show ?thesis by (cases n) simp_all
next
  case (Some k)
  with hd have s: "first_index (\<lambda>n. label n = Some i) (n # ns) = Some (Suc k)" by simp
  from callback_hit [OF cb s] callback_hit [OF cb Some]
  have "each_at f i (n # ns) = n # each_at f i ns" by simp
  with kids Some show ?thesis by simp
qed

lemma each_at_Cons_element:
  assumes cb: "callback_of f T tg" and "i \<noteq> x"
    and "i \<notin> set (labels cs) \<or> i \<notin> set (labels ns)"
  shows "each_at f i (LElement (Some x) t a cs # ns) =
           LElement (Some x) t a (each_at f i cs) # each_at f i ns"
proof -
  have "first_index (\<lambda>n. label n = Some i) ns \<noteq> None \<longrightarrow>
          below f i [LElement (Some x) t a cs] = [LElement (Some x) t a cs]"
  proof
    assume "first_index (\<lambda>n. label n = Some i) ns \<noteq> None"
    then obtain k where "first_index (\<lambda>n. label n = Some i) ns = Some k" by auto
    from first_index_label [OF this] assms(3) have "i \<notin> set (labels cs)" by auto
    then show "below f i [LElement (Some x) t a cs] = [LElement (Some x) t a cs]"
      by (simp add: each_at_absent)
  qed
  from each_at_Cons_other [OF cb _ this] assms(2) show ?thesis by simp
qed

lemma each_at_Cons_text:
  assumes cb: "callback_of f T tg"
  shows "each_at f i (LText s # ns) = LText s # each_at f i ns"
    and "each_at f i (LComment s # ns) = LComment s # each_at f i ns"
  using each_at_Cons_other [OF cb, of "LText s" i ns]
    each_at_Cons_other [OF cb, of "LComment s" i ns] by simp_all

lemma run_absent:
  "\<forall>i\<in>set ids. i \<notin> set (labels d) \<Longrightarrow> run f ids d = d"
  by (induction ids) (simp_all add: run_Nil run_Cons each_at_absent)

lemma run_filter:
  assumes cb: "callback_of f T tg"
  shows "run f ids d = run f (filter (\<lambda>i. i \<in> set (labels d)) ids) d"
proof (induction "length ids" arbitrary: ids d rule: less_induct)
  case less
  show ?case
  proof (cases ids)
    case Nil
    then show ?thesis by simp
  next
    case (Cons i rest)
    show ?thesis
    proof (cases "i \<in> set (labels d)")
      case False
      then have "run f ids d = run f rest d" by (simp add: Cons run_Cons each_at_absent)
      also have "\<dots> = run f (filter (\<lambda>i. i \<in> set (labels d)) rest) d"
        by (rule less) (simp add: Cons)
      finally show ?thesis using False by (simp add: Cons)
    next
      case True
      let ?d' = "each_at f i d"
      let ?in = "\<lambda>d i. i \<in> set (labels d)"
      from each_at_labels(1) [OF cb, of i d] have sub: "set (labels ?d') \<subseteq> set (labels d)"
        by simp
      have "run f ids d = run f rest ?d'" by (simp add: Cons run_Cons)
      also have "\<dots> = run f (filter (?in ?d') rest) ?d'"
        by (rule less) (simp add: Cons)
      also have "filter (?in ?d') rest = filter (?in ?d') (filter (?in d) rest)"
        using sub by (auto intro: filter_cong)
      also have "run f (filter (?in ?d') (filter (?in d) rest)) ?d' = run f (filter (?in d) rest) ?d'"
        by (rule less [symmetric]) (simp add: Cons le_imp_less_Suc)
      finally show ?thesis using True by (simp add: Cons run_Cons)
    qed
  qed
qed

lemma run_Cons_element:
  assumes cb: "callback_of f T tg"
  shows "x \<notin> set ids \<Longrightarrow> set (labels cs) \<inter> set (labels ns) = {} \<Longrightarrow>
           run f ids (LElement (Some x) t a cs # ns) =
             LElement (Some x) t a (run f ids cs) # run f ids ns"
proof (induction ids arbitrary: cs ns)
  case Nil
  then show ?case by (simp add: run_Nil)
next
  case (Cons i ids)
  from Cons.prems have ix: "i \<noteq> x" and x: "x \<notin> set ids"
    and one: "i \<notin> set (labels cs) \<or> i \<notin> set (labels ns)" by auto
  from each_at_labels(1) [OF cb, of i cs] each_at_labels(1) [OF cb, of i ns] Cons.prems(2)
  have dis: "set (labels (each_at f i cs)) \<inter> set (labels (each_at f i ns)) = {}" by blast
  from each_at_Cons_element [OF cb ix one] Cons.IH [OF x dis] show ?case
    by (simp add: run_Cons)
qed

lemma run_Cons_text:
  assumes cb: "callback_of f T tg"
  shows "run f ids (LText s # ns) = LText s # run f ids ns"
    and "run f ids (LComment s # ns) = LComment s # run f ids ns"
  by (induction ids arbitrary: ns) (simp_all add: run_Nil run_Cons each_at_Cons_text [OF cb])


subsection \<open>The selection after a callback\<close>

text \<open>
  The selectors of the two passes read \<^verbatim>\<open>data-wet\<close> only (\<open>wet_only\<close>). After a callback the
  selection taken at the start, cut down to the numbers still in the tree, is the
  selection of the tree as it is then; so the pass at a marker is the pass on the later
  siblings as the callback has left them (\<open>pass_l_marker\<close>), and at any other element it
  is the pass below and the pass after (\<open>pass_l_element\<close>).
\<close>

definition wet_only :: "(node \<Rightarrow> bool) \<Rightarrow> bool" where
  "wet_only P =
     (\<forall>t a cs t' a' cs'.
        map_of a ''data-wet'' = map_of a' ''data-wet'' \<longrightarrow>
        P (Element t a cs) = P (Element t' a' cs'))"

lemma select_Cons: "select P (n # ns) = select P [n] @ select P ns"
  using select_append [of P "[n]" ns] by simp

lemma select_single_attrs_only:
  "wet_only P \<Longrightarrow> attrs_only n n' \<Longrightarrow> select P [n'] = select P [n]"
proof -
  assume P: "wet_only P" and a: "attrs_only n n'"
  have eq: "P (Element t a []) = P (Element t a' [])"
    if "map_of a ''data-wet'' = map_of a' ''data-wet''" for t a a'
    using P that unfolding wet_only_def by blast
  from a show ?thesis
    by (cases n; cases n') (auto simp: attrs_only_def dest: eq)
qed

lemma select_update:
  "wet_only P \<Longrightarrow> d < length xs \<Longrightarrow> attrs_only (xs ! d) n' \<Longrightarrow>
     select P (xs[d := n']) = select P xs"
proof (induction xs arbitrary: d)
  case Nil
  then show ?case by simp
next
  case (Cons x xs)
  show ?case
  proof (cases d)
    case 0
    with Cons.prems have "select P [n'] = select P [x]"
      by (simp add: select_single_attrs_only)
    with 0 select_Cons [of P n' xs] select_Cons [of P x xs] show ?thesis by simp
  next
    case (Suc e)
    with Cons.prems have "select P (xs[e := n']) = select P xs"
      by (intro Cons.IH) simp_all
    with Suc select_Cons [of P x "xs[e := n']"] select_Cons [of P x xs] show ?thesis by simp
  qed
qed

lemma select_remove_at:
  assumes d: "d < length xs" and dis: "distinct (labels xs)"
  shows "select P (remove_at d xs) =
           filter (\<lambda>i. i \<in> set (labels (remove_at d xs))) (select P xs)"
proof -
  let ?a = "take d xs" and ?m = "[xs ! d]" and ?b = "drop (Suc d) xs"
  from d have xs: "xs = ?a @ ?m @ ?b" by (simp add: id_take_nth_drop)
  from labels_remove_at [OF d] have l: "labels xs = labels ?a @ labels ?m @ labels ?b"
    and r: "labels (remove_at d xs) = labels ?a @ labels ?b" by simp_all
  have s: "select P xs = select P ?a @ select P ?m @ select P ?b"
    by (subst xs) (simp only: select_append)
  have sr: "select P (remove_at d xs) = select P ?a @ select P ?b"
    by (simp add: remove_at_def select_append)
  let ?in = "\<lambda>i. i \<in> set (labels ?a @ labels ?b)"
  from dis l have "set (labels ?m) \<inter> set (labels ?a @ labels ?b) = {}" by auto
  from filter_select_none [OF this, of P] have m: "filter ?in (select P ?m) = []" .
  have a: "filter ?in (select P ?a) = select P ?a"
    using select_subset [of P ?a] by (auto intro: filter_True)
  have b: "filter ?in (select P ?b) = select P ?b"
    using select_subset [of P ?b] by (auto intro: filter_True)
  show ?thesis unfolding r s sr by (simp only: filter_append a b m append_Nil)
qed

lemma later_effect_select:
  assumes g: "\<forall>n n'. g n = Some n' \<longrightarrow> attrs_only n n'" and P: "wet_only P"
    and dis: "distinct (labels later)"
  shows "select P (later_effect T g later) =
           filter (\<lambda>i. i \<in> set (labels (later_effect T g later))) (select P later)"
proof -
  from later_effect_cases [OF g, of T later]
  consider (same) "later_effect T g later = later"
    | (removed) d where "d < length later" "later_effect T g later = remove_at d later"
    | (updated) d n' where "d < length later" "attrs_only (later ! d) n'"
        "later_effect T g later = later[d := n']"
    by blast
  then show ?thesis
  proof cases
    case same
    then show ?thesis by (simp add: filter_select_id)
  next
    case (removed d)
    with select_remove_at [OF removed(1) dis, of P] show ?thesis by simp
  next
    case (updated d n')
    with select_update [OF P updated(1) updated(2)] labels_update [OF updated(1) updated(2)]
    show ?thesis by (simp add: filter_select_id)
  qed
qed

definition pass_l ::
  "(node \<Rightarrow> bool) \<Rightarrow> (nat \<Rightarrow> lnode list \<Rightarrow> lnode list) \<Rightarrow> lnode list \<Rightarrow> lnode list" where
  "pass_l P f d = run f (select P d) d"

lemma pass_l_Nil: "pass_l P f [] = []"
  by (simp add: pass_l_def run_Nil)

lemma pass_l_text:
  assumes cb: "callback_of f T tg"
  shows "pass_l P f (LText s # ns) = LText s # pass_l P f ns"
    and "pass_l P f (LComment s # ns) = LComment s # pass_l P f ns"
  by (simp_all add: pass_l_def run_Cons_text [OF cb])

lemma pass_l_element:
  assumes cb: "callback_of f T tg"
    and dis: "distinct (labels (LElement (Some x) t a cs # ns))"
    and np: "\<not> P (Element t a [])"
  shows "pass_l P f (LElement (Some x) t a cs # ns) =
           LElement (Some x) t a (pass_l P f cs) # pass_l P f ns"
proof -
  let ?ids = "select P cs @ select P ns"
  from dis have x: "x \<notin> set (labels cs)" "x \<notin> set (labels ns)"
    and d: "set (labels cs) \<inter> set (labels ns) = {}" by auto
  from x select_subset [of P cs] select_subset [of P ns] have xi: "x \<notin> set ?ids" by auto
  have c: "filter (\<lambda>i. i \<in> set (labels cs)) ?ids = select P cs"
    using filter_select_none [of ns "set (labels cs)" P] d
    by (simp add: filter_select_id Int_commute)
  have n: "filter (\<lambda>i. i \<in> set (labels ns)) ?ids = select P ns"
    using filter_select_none [of cs "set (labels ns)" P] d
    by (simp add: filter_select_id)
  have "pass_l P f (LElement (Some x) t a cs # ns) = run f ?ids (LElement (Some x) t a cs # ns)"
    using np by (simp add: pass_l_def)
  also have "\<dots> = LElement (Some x) t a (run f ?ids cs) # run f ?ids ns"
    by (rule run_Cons_element [OF cb xi d])
  also have "run f ?ids cs = pass_l P f cs"
    by (subst run_filter [OF cb]) (simp only: c pass_l_def)
  also have "run f ?ids ns = pass_l P f ns"
    by (subst run_filter [OF cb]) (simp only: n pass_l_def)
  finally show ?thesis .
qed

lemma pass_l_marker:
  assumes cb: "callback_of f T tg" and P: "wet_only P"
    and dis: "distinct (labels (LElement (Some x) t a cs # ns))"
    and p: "P (Element t a [])"
  shows "pass_l P f (LElement (Some x) t a cs # ns) =
           pass_l P f (later_effect T (tg (data_wet a)) ns)"
proof -
  let ?n = "LElement (Some x) t a cs"
  let ?E = "later_effect T (tg (data_wet a)) ns"
  let ?ids = "select P cs @ select P ns"
  from dis have d: "set (labels cs) \<inter> set (labels ns) = {}" and dn: "distinct (labels ns)"
    by auto
  note g = callback_target [OF cb, of "data_wet a"]
  from later_effect_labels [OF g, of T ns] have sub: "set (labels ?E) \<subseteq> set (labels ns)"
    by simp
  have "first_index (\<lambda>n. label n = Some x) (?n # ns) = Some 0" by simp
  from callback_hit [OF cb this] have hit: "each_at f x (?n # ns) = ?E" by simp
  from sub d have "set (labels cs) \<inter> set (labels ?E) = {}" by auto
  from filter_select_none [OF this, of P]
  have "filter (\<lambda>i. i \<in> set (labels ?E)) ?ids = filter (\<lambda>i. i \<in> set (labels ?E)) (select P ns)"
    by simp
  also have "\<dots> = select P ?E" by (rule later_effect_select [OF g P dn, symmetric])
  finally have f: "filter (\<lambda>i. i \<in> set (labels ?E)) ?ids = select P ?E" .
  have "pass_l P f (?n # ns) = run f ?ids ?E"
    using p by (simp add: pass_l_def run_Cons hit)
  also have "\<dots> = pass_l P f ?E"
    by (subst run_filter [OF cb]) (simp only: f pass_l_def)
  finally show ?thesis .
qed


subsection \<open>The two callbacks of the program\<close>

lemma map_of_set_attr_list:
  "k' \<noteq> k \<Longrightarrow> map_of (set_attr_list k v a) k' = map_of a k'"
  by (induction k v a rule: set_attr_list.induct) auto

definition keeps_wet :: "(node \<Rightarrow> node) \<Rightarrow> bool" where
  "keeps_wet h =
     (\<forall>t a. case h (Element t a []) of
              Element t' a' cs' \<Rightarrow> t' = t \<and> map_of a' ''data-wet'' = map_of a ''data-wet''
            | Text s \<Rightarrow> True
            | Comment s \<Rightarrow> True)"

lemma keeps_wet_attrs_only: "keeps_wet h \<Longrightarrow> attrs_only n (on_element h n)"
proof (cases n)
  case (LElement l t a cs)
  assume "keeps_wet h"
  then have "case h (Element t a []) of
               Element t' a' cs' \<Rightarrow> t' = t \<and> map_of a' ''data-wet'' = map_of a ''data-wet''
             | Text s \<Rightarrow> True | Comment s \<Rightarrow> True"
    unfolding keeps_wet_def by blast
  with LElement show ?thesis
    by (cases "h (Element t a [])") (simp_all add: attrs_only_def)
qed (simp_all add: attrs_only_def)

lemma keeps_wet_attr_set: "keeps_wet (\<lambda>e. attr_set e ''class'' c)"
  by (simp add: keeps_wet_def map_of_set_attr_list)

lemma keeps_wet_addClass: "keeps_wet (\<lambda>e. addClass e kind)"
  by (simp add: keeps_wet_def map_of_set_attr_list split: option.splits)

lemma keeps_wet_id: "keeps_wet (\<lambda>e. e)"
  by (simp add: keeps_wet_def)

definition table_edit :: "string \<Rightarrow> (node \<Rightarrow> node) option" where
  "table_edit kind =
     (if kind = ''table-responsive'' then None
      else (case tableClassMap kind of
              Some c \<Rightarrow> Some (\<lambda>e. attr_set e ''class'' c)
            | None \<Rightarrow> Some (\<lambda>e. e)))"

definition list_edit :: "string \<Rightarrow> (node \<Rightarrow> node) option" where
  "list_edit kind = Some (\<lambda>e. addClass e kind)"

definition edit_target :: "(string \<Rightarrow> (node \<Rightarrow> node) option) \<Rightarrow> string \<Rightarrow> lnode \<Rightarrow> lnode option" where
  "edit_target g kind n = map_option (\<lambda>h. on_element h n) (g kind)"

lemma on_element_id: "on_element (\<lambda>e. e) n = n"
  by (cases n) simp_all

lemma table_target_edit: "table_target = edit_target table_edit"
  by (intro ext)
     (simp add: table_target_def edit_target_def table_edit_def on_element_id split: option.splits)

lemma list_target_edit: "list_target = edit_target list_edit"
  by (intro ext) (simp add: list_target_def edit_target_def list_edit_def)

definition edits_keep :: "(string \<Rightarrow> (node \<Rightarrow> node) option) \<Rightarrow> bool" where
  "edits_keep g = (\<forall>kind h. g kind = Some h \<longrightarrow> keeps_wet h)"

lemma table_edit_keeps: "edits_keep table_edit"
  by (auto simp: edits_keep_def table_edit_def keeps_wet_attr_set keeps_wet_id
           split: if_splits option.splits)

lemma list_edit_keeps: "edits_keep list_edit"
  by (auto simp: edits_keep_def list_edit_def keeps_wet_addClass)

lemma edit_target_attrs_only:
  "edits_keep g \<Longrightarrow> edit_target g kind n = Some n' \<Longrightarrow> attrs_only n n'"
  by (auto simp: edits_keep_def edit_target_def keeps_wet_attrs_only)

lemma table_callback_of:
  "callback_of table_callback (is_tag ''table'') (edit_target table_edit)"
  unfolding callback_of_def
  using table_callback_later edit_target_attrs_only [OF table_edit_keeps]
  by (simp add: table_target_edit)

lemma list_callback_of:
  "callback_of list_callback (\<lambda>n. is_tag ''ul'' n \<or> is_tag ''ol'' n) (edit_target list_edit)"
  unfolding callback_of_def
  using list_callback_later edit_target_attrs_only [OF list_edit_keeps]
  by (simp add: list_target_edit)

lemma wet_only_prefix: "wet_only (wet_prefix p)"
  by (simp add: wet_only_def wet_prefix_def)

lemma wet_only_lists: "wet_only (\<lambda>n. wet_is ''list-inline'' n \<or> wet_is ''list-unstyled'' n)"
  by (simp add: wet_only_def wet_is_def)


subsection \<open>The recursion over the plain tree\<close>

text \<open>
  \<open>later_plain\<close> is \<open>later_effect\<close> on plain nodes and \<open>sibling_pass\<close> the recursion: a
  marker is dropped and the recursion goes on with the later siblings as its callback
  leaves them; any other element is kept, with the pass below it and after it.
\<close>

fun on_plain :: "(node \<Rightarrow> node) \<Rightarrow> node \<Rightarrow> node" where
  "on_plain h (Element t a cs) =
     (case h (Element t a []) of
        Element t' a' cs' \<Rightarrow> Element t' a' cs
      | Text s \<Rightarrow> Element t a cs
      | Comment s \<Rightarrow> Element t a cs)"
| "on_plain h (Text s) = Text s"
| "on_plain h (Comment s) = Comment s"

definition later_plain :: "(node \<Rightarrow> bool) \<Rightarrow> (node \<Rightarrow> node) option \<Rightarrow> node list \<Rightarrow> node list" where
  "later_plain T g later =
     (case first_index T later of
        None \<Rightarrow> later
      | Some d \<Rightarrow> (case g of
                     None \<Rightarrow> remove_at d later
                   | Some h \<Rightarrow> later[d := on_plain h (later ! d)]))"

lemma size_on_plain: "size (on_plain h n) = size n"
  by (cases n) (simp_all split: node.splits)

lemma size_list_update_same:
  "d < length xs \<Longrightarrow> f v = f (xs ! d) \<Longrightarrow> size_list f (xs[d := v]) = size_list f xs"
  by (induction xs arbitrary: d) (auto split: nat.splits)

lemma size_list_remove_at: "size_list f (remove_at d xs) \<le> size_list f xs"
proof -
  have "size_list f xs = size_list f (take d xs @ drop d xs)" by simp
  also have "\<dots> = size_list f (take d xs) + size_list f (drop d xs)"
    by (simp only: size_list_append)
  finally have a: "size_list f xs = size_list f (take d xs) + size_list f (drop d xs)" .
  have "size_list f (drop (Suc d) xs) \<le> size_list f (drop d xs)"
    by (cases "d < length xs") (simp_all add: Cons_nth_drop_Suc [symmetric])
  with a show ?thesis by (simp add: remove_at_def)
qed

lemma size_later_plain: "size_list size (later_plain T g later) \<le> size_list size later"
proof (cases "first_index T later")
  case None
  then show ?thesis by (simp add: later_plain_def)
next
  case (Some d)
  from first_index_less [OF Some] have d: "d < length later" .
  show ?thesis
  proof (cases g)
    case None
    with Some size_list_remove_at [of size d later] show ?thesis by (simp add: later_plain_def)
  next
    case (Some h)
    with \<open>first_index T later = Some d\<close> size_list_update_same [OF d, of size "on_plain h (later ! d)"]
    show ?thesis by (simp add: later_plain_def size_on_plain)
  qed
qed

function sibling_pass ::
  "(node \<Rightarrow> bool) \<Rightarrow> (node \<Rightarrow> bool) \<Rightarrow> (string \<Rightarrow> (node \<Rightarrow> node) option) \<Rightarrow> node list \<Rightarrow> node list"
  where
  "sibling_pass P T g [] = []"
| "sibling_pass P T g (Element t a cs # ns) =
     (if P (Element t a [])
      then sibling_pass P T g (later_plain T (g (data_wet a)) ns)
      else Element t a (sibling_pass P T g cs) # sibling_pass P T g ns)"
| "sibling_pass P T g (Text s # ns) = Text s # sibling_pass P T g ns"
| "sibling_pass P T g (Comment s # ns) = Comment s # sibling_pass P T g ns"
  by pat_completeness auto
termination
proof (relation "measure (\<lambda>(P, T, g, ns). size_list size ns)", goal_cases)
  case (2 P T g t a cs ns)
  from size_later_plain [of T "g (data_wet a)" ns] show ?case by simp
qed simp_all

definition strip1 :: "lnode \<Rightarrow> node" where
  "strip1 n = hd (strip [n])"

lemma strip_map: "strip xs = map strip1 xs"
  by (induction xs rule: strip.induct) (simp_all add: strip1_def)

lemma first_index_map: "first_index P (map f xs) = first_index (\<lambda>x. P (f x)) xs"
  by (induction xs) simp_all

definition tag_only :: "(node \<Rightarrow> bool) \<Rightarrow> bool" where
  "tag_only T = (\<forall>n. T (strip1 n) = T (shallow n))"

lemma tag_only_is_tag: "tag_only (is_tag t)"
  unfolding tag_only_def
proof
  fix n show "is_tag t (strip1 n) = is_tag t (shallow n)"
    by (cases n) (simp_all add: is_tag_def strip1_def)
qed

lemma tag_only_lists: "tag_only (\<lambda>n. is_tag ''ul'' n \<or> is_tag ''ol'' n)"
  using tag_only_is_tag [of "''ul''"] tag_only_is_tag [of "''ol''"]
  by (simp add: tag_only_def)

lemma strip1_on_element: "strip1 (on_element h n) = on_plain h (strip1 n)"
  by (cases n) (simp_all add: strip1_def split: node.splits)

lemma map_remove_at: "map f (remove_at d xs) = remove_at d (map f xs)"
  by (simp add: remove_at_def take_map drop_map)

lemma strip_later_effect:
  assumes T: "tag_only T"
  shows "strip (later_effect T (edit_target g kind) later) = later_plain T (g kind) (strip later)"
proof -
  from T have fi: "first_index T (map strip1 later) = first_index (\<lambda>n. T (shallow n)) later"
    by (simp add: first_index_map tag_only_def)
  show ?thesis
  proof (cases "first_index (\<lambda>n. T (shallow n)) later")
    case None
    with fi show ?thesis by (simp add: later_effect_def later_plain_def strip_map)
  next
    case (Some d)
    from first_index_less [OF Some] have d: "d < length later" .
    show ?thesis
    proof (cases "g kind")
      case None
      with Some fi show ?thesis
        by (simp add: later_effect_def later_plain_def strip_map edit_target_def map_remove_at)
    next
      case (Some h)
      with \<open>first_index _ later = Some d\<close> fi d show ?thesis
        by (simp add: later_effect_def later_plain_def strip_map edit_target_def map_update
                      strip1_on_element)
    qed
  qed
qed

lemma numbered_append: "numbered (xs @ ys) = (numbered xs \<and> numbered ys)"
  by (induction xs rule: numbered.induct) simp_all

lemma numbered_Cons: "numbered (n # ns) = (numbered [n] \<and> numbered ns)"
  using numbered_append [of "[n]" ns] by simp

lemma numbered_attrs_only: "attrs_only n n' \<Longrightarrow> numbered [n'] = numbered [n]"
  by (cases n; cases n') (auto simp: attrs_only_def)

lemma numbered_update:
  "d < length xs \<Longrightarrow> attrs_only (xs ! d) n' \<Longrightarrow> numbered (xs[d := n']) = numbered xs"
proof (induction xs arbitrary: d)
  case Nil
  then show ?case by simp
next
  case (Cons x xs)
  show ?case
  proof (cases d)
    case 0
    with Cons.prems numbered_attrs_only [of x n'] numbered_Cons [of n' xs] numbered_Cons [of x xs]
    show ?thesis by simp
  next
    case (Suc e)
    with Cons.prems have "numbered (xs[e := n']) = numbered xs" by (intro Cons.IH) simp_all
    with Suc numbered_Cons [of x "xs[e := n']"] numbered_Cons [of x xs] show ?thesis by simp
  qed
qed

lemma numbered_remove_at: "numbered xs \<Longrightarrow> numbered (remove_at d xs)"
proof -
  assume n: "numbered xs"
  have "numbered (take d xs @ drop d xs)" using n by simp
  then have a: "numbered (take d xs)" "numbered (drop d xs)"
    by (simp_all only: numbered_append)
  have "numbered (drop (Suc d) xs)"
  proof (cases "d < length xs")
    case True
    then have "drop d xs = xs ! d # drop (Suc d) xs" by (simp add: Cons_nth_drop_Suc)
    with a(2) numbered_Cons [of "xs ! d" "drop (Suc d) xs"] show ?thesis by simp
  qed simp
  with a(1) show ?thesis by (simp add: remove_at_def numbered_append)
qed

lemma later_effect_numbered:
  assumes g: "\<forall>n n'. g n = Some n' \<longrightarrow> attrs_only n n'" and n: "numbered later"
  shows "numbered (later_effect T g later)"
proof -
  from later_effect_cases [OF g, of T later]
  consider (same) "later_effect T g later = later"
    | (removed) d where "d < length later" "later_effect T g later = remove_at d later"
    | (updated) d n' where "d < length later" "attrs_only (later ! d) n'"
        "later_effect T g later = later[d := n']"
    by blast
  then show ?thesis
  proof cases
    case same
    with n show ?thesis by simp
  next
    case (removed d)
    with n show ?thesis by (simp add: numbered_remove_at)
  next
    case (updated d n')
    with n numbered_update [OF updated(1) updated(2)] show ?thesis by simp
  qed
qed

lemma strip_pass_l:
  "callback_of f T (edit_target g) \<Longrightarrow> wet_only P \<Longrightarrow> tag_only T \<Longrightarrow>
     ns = strip d \<Longrightarrow> numbered d \<Longrightarrow> distinct (labels d) \<Longrightarrow>
     strip (pass_l P f d) = sibling_pass P T g ns"
proof (induction P T g ns arbitrary: d rule: sibling_pass.induct)
  case (1 P T g)
  from "1.prems"(4) strip_Nil [of d] have "d = []" by simp
  then show ?case by (simp add: pass_l_Nil)
next
  case (2 P T g t a cs ns)
  note cb = "2.prems"(1) and P = "2.prems"(2) and T = "2.prems"(3)
  from "2.prems"(4) obtain l cs' ns' where d: "d = LElement l t a cs' # ns'"
    and cs: "cs = strip cs'" and ns: "ns = strip ns'"
    by (cases d rule: strip.cases) auto
  from "2.prems"(5) d obtain x where l: "l = Some x" and ncs: "numbered cs'" and nns: "numbered ns'"
    by auto
  from "2.prems"(6) d l have dis: "distinct (labels (LElement (Some x) t a cs' # ns'))" by simp
  then have dcs: "distinct (labels cs')" and dns: "distinct (labels ns')" by auto
  show ?case
  proof (cases "P (Element t a [])")
    case True
    let ?E = "later_effect T (edit_target g (data_wet a)) ns'"
    note tg = callback_target [OF cb, of "data_wet a"]
    have "strip (pass_l P f ?E) = sibling_pass P T g (later_plain T (g (data_wet a)) ns)"
    proof (rule "2.IH"(1) [OF True cb P T])
      show "later_plain T (g (data_wet a)) ns = strip ?E"
        by (simp add: ns strip_later_effect [OF T])
      show "numbered ?E" by (rule later_effect_numbered [OF tg nns])
      show "distinct (labels ?E)" using later_effect_labels [OF tg, of T ns'] dns by simp
    qed
    with True pass_l_marker [where P = P, OF cb P dis True] d l show ?thesis by simp
  next
    case False
    from "2.IH"(2) [OF False cb P T cs ncs dcs] "2.IH"(3) [OF False cb P T ns nns dns]
      pass_l_element [where P = P, OF cb dis False] False d l
    show ?thesis by simp
  qed
next
  case (3 P T g s ns)
  note cb = "3.prems"(1) and P = "3.prems"(2) and T = "3.prems"(3)
  from "3.prems"(4) obtain ns' where d: "d = LText s # ns'" and ns: "ns = strip ns'"
    by (cases d rule: strip.cases) auto
  with "3.prems" "3.IH" [OF cb P T ns] pass_l_text(1) [OF cb, of P s ns'] show ?case by simp
next
  case (4 P T g s ns)
  note cb = "4.prems"(1) and P = "4.prems"(2) and T = "4.prems"(3)
  from "4.prems"(4) obtain ns' where d: "d = LComment s # ns'" and ns: "ns = strip ns'"
    by (cases d rule: strip.cases) auto
  with "4.prems" "4.IH" [OF cb P T ns] pass_l_text(2) [OF cb, of P s ns'] show ?case by simp
qed

definition tables_plain :: "node list \<Rightarrow> node list" where
  "tables_plain = sibling_pass (wet_prefix ''table-'') (is_tag ''table'') table_edit"

definition lists_plain :: "node list \<Rightarrow> node list" where
  "lists_plain =
     sibling_pass (\<lambda>n. wet_is ''list-inline'' n \<or> wet_is ''list-unstyled'' n)
       (\<lambda>n. is_tag ''ul'' n \<or> is_tag ''ol'' n) list_edit"

lemma tablesPass_plain: "tablesPass ns = tables_plain ns"
proof -
  obtain ls c' where n: "number 0 ns = (ls, c')" by (cases "number 0 ns") auto
  from number_props [OF n] have p: "numbered ls" "distinct (labels ls)" "ns = strip ls"
    by simp_all
  have "tablesPass ns = strip (pass_l (wet_prefix ''table-'') table_callback ls)"
    by (simp add: tablesPass_def n pass_l_def run_def)
  also have "\<dots> = tables_plain ns"
    unfolding tables_plain_def
    by (rule strip_pass_l [OF table_callback_of wet_only_prefix tag_only_is_tag p(3) p(1) p(2)])
  finally show ?thesis .
qed

lemma listsPass_plain: "listsPass ns = lists_plain ns"
proof -
  obtain ls c' where n: "number 0 ns = (ls, c')" by (cases "number 0 ns") auto
  from number_props [OF n] have p: "numbered ls" "distinct (labels ls)" "ns = strip ls"
    by simp_all
  have "listsPass ns =
          strip (pass_l (\<lambda>n. wet_is ''list-inline'' n \<or> wet_is ''list-unstyled'' n) list_callback ls)"
    by (simp add: listsPass_def n pass_l_def run_def)
  also have "\<dots> = lists_plain ns"
    unfolding lists_plain_def
    by (rule strip_pass_l [OF list_callback_of wet_only_lists tag_only_lists p(3) p(1) p(2)])
  finally show ?thesis .
qed


subsection \<open>No marker is left, and the equations at a marker\<close>

lemma wet_only_shallow: "wet_only P \<Longrightarrow> P (Element t a cs) = P (Element t a [])"
  unfolding wet_only_def by blast

lemma sibling_pass_closed: "wet_only P \<Longrightarrow> \<not> occurs P (sibling_pass P T g ns)"
proof (induction P T g ns rule: sibling_pass.induct)
  case (2 P T g t a cs ns)
  from wet_only_shallow [OF "2.prems", of t a "sibling_pass P T g cs"] "2.IH" "2.prems"
  show ?case by simp
qed simp_all

lemma sibling_pass_id: "wet_only P \<Longrightarrow> \<not> occurs P ns \<Longrightarrow> sibling_pass P T g ns = ns"
proof (induction P T g ns rule: sibling_pass.induct)
  case (2 P T g t a cs ns)
  from wet_only_shallow [OF "2.prems"(1), of t a cs] "2.IH"(2,3) "2.prems"
  show ?case by simp
qed simp_all

lemma sibling_pass_twice:
  "wet_only P \<Longrightarrow> sibling_pass P T g (sibling_pass P T g ns) = sibling_pass P T g ns"
  by (simp add: sibling_pass_id sibling_pass_closed)

lemma first_index_skip:
  "\<not> list_ex T xs \<Longrightarrow> T x \<Longrightarrow> first_index T (xs @ x # rest) = Some (length xs)"
  by (induction xs) simp_all

lemma first_index_none: "\<not> list_ex T xs \<Longrightarrow> first_index T xs = None"
  by (induction xs) simp_all

lemma later_plain_none: "\<not> list_ex T rest \<Longrightarrow> later_plain T g rest = rest"
  by (simp add: later_plain_def first_index_none)

lemma later_plain_remove:
  "\<not> list_ex T xs \<Longrightarrow> T x \<Longrightarrow> later_plain T None (xs @ x # rest) = xs @ rest"
  by (simp add: later_plain_def first_index_skip remove_at_def)

lemma later_plain_edit:
  "\<not> list_ex T xs \<Longrightarrow> T x \<Longrightarrow>
     later_plain T (Some h) (xs @ x # rest) = xs @ on_plain h x # rest"
  by (simp add: later_plain_def first_index_skip)

lemma on_plain_attr_set: "on_plain (\<lambda>e. attr_set e k v) n = attr_set n k v"
  by (cases n) simp_all

lemma on_plain_addClass: "on_plain (\<lambda>e. addClass e v) n = addClass n v"
  by (cases n) (simp_all split: option.splits)

lemma sibling_pass_marker:
  "P (marker kind []) \<Longrightarrow>
     sibling_pass P T g (marker kind c # ns) = sibling_pass P T g (later_plain T (g kind) ns)"
  by (simp add: marker_def data_wet_def)

lemma tableClassMap_kinds:
  "tableClassMap kind = Some cl \<Longrightarrow>
     kind \<noteq> ''table-responsive'' \<and> wet_prefix ''table-'' (marker kind [])"
  by (auto simp: tableClassMap_def marker_def wet_prefix_def startsWith_def split: if_splits)


lemma tables_plain_marker:
  "wet_prefix ''table-'' (marker kind []) \<Longrightarrow>
     tables_plain (marker kind c # ns) =
       tables_plain (later_plain (is_tag ''table'') (table_edit kind) ns)"
  unfolding tables_plain_def by (rule sibling_pass_marker)

lemma lists_plain_marker:
  "kind = ''list-inline'' \<or> kind = ''list-unstyled'' \<Longrightarrow>
     lists_plain (marker kind c # ns) =
       lists_plain (later_plain (\<lambda>n. is_tag ''ul'' n \<or> is_tag ''ol'' n) (list_edit kind) ns)"
  unfolding lists_plain_def
  by (rule sibling_pass_marker) (auto simp: marker_def wet_is_def)

lemma is_tag_Element: "is_tag t (Element t' a cs) = (t' = t)"
  by (simp add: is_tag_def)

section \<open>What the inner loops compute when no end marker follows\<close>

text \<open>
  With an item open, the accordion loop stops only at an \<^verbatim>\<open>accordion-end\<close> marker or at
  the end of the snapshot.
\<close>

lemma accordion_scan_open:
  "j \<le> length nodes \<Longrightarrow>
   list_all (\<lambda>n. \<not> is_div_wet ''accordion-end'' n) (drop j nodes) \<Longrightarrow>
     fst (accordion_scan nodes j its (Some c)) = length nodes"
proof (induction "length nodes - j" arbitrary: j its c)
  case 0
  then show ?case by (simp add: accordion_scan_stop)
next
  case (Suc d)
  then have lt: "j < length nodes" by simp
  from Suc.prems(2) lt have ne: "\<not> is_div_wet ''accordion-end'' (nodes ! j)"
    and rest: "list_all (\<lambda>n. \<not> is_div_wet ''accordion-end'' n) (drop (Suc j) nodes)"
    by (simp_all add: Cons_nth_drop_Suc [symmetric])
  from Suc.hyps(2) lt have d: "d = length nodes - Suc j" and le: "Suc j \<le> length nodes"
    by simp_all
  show ?case
  proof (cases "is_div_wet ''accordion-heading'' (nodes ! j)")
    case True
    with lt ne show ?thesis
      by (simp add: accordion_scan_heading Suc.hyps(1) [OF d le rest])
  next
    case nh: False
    show ?thesis
    proof (cases "is_div_wet ''accordion-panel'' (nodes ! j)")
      case True
      with lt ne nh show ?thesis
        by (simp add: accordion_scan_panel Suc.hyps(1) [OF d le rest])
    next
      case False
      with lt ne nh show ?thesis
        by (simp add: accordion_scan_other Suc.hyps(1) [OF d le rest])
    qed
  qed
qed

text \<open>
  The pagination loop, read as a whole: \<open>pagination_entry\<close> is the entry its three branches
  build for an interior marker (the tests in the order of the source), and the loop walks
  the longest run of interior markers.
\<close>

definition pagination_entry :: "(node list \<Rightarrow> string) \<Rightarrow> node \<Rightarrow> node" where
  "pagination_entry ser m =
     (if is_div_wet ''pagination-active'' m then li_active (pagination_label ser m)
      else if is_div_wet ''pagination-disabled'' m then li_disabled (pagination_label ser m)
      else li_item (pagination_label ser m))"

definition pagination_interior :: "node \<Rightarrow> bool" where
  "pagination_interior m =
     (is_div_wet ''pagination-active'' m \<or> is_div_wet ''pagination-disabled'' m \<or>
      is_div_wet ''pagination-item'' m)"

lemma pagination_scan_spec:
  "j \<le> length nodes \<Longrightarrow>
   list_all (\<lambda>n. \<not> is_div_wet ''pagination-end'' n) (drop j nodes) \<Longrightarrow>
   pagination_scan ser nodes j (Element t a es) =
     (j + length (takeWhile pagination_interior (drop j nodes)),
      Element t a (es @ map (pagination_entry ser) (takeWhile pagination_interior (drop j nodes))))"
proof (induction "length nodes - j" arbitrary: j es)
  case 0
  then show ?case by (simp add: pagination_scan_stop)
next
  case (Suc d)
  then have lt: "j < length nodes" by simp
  from Suc.prems(2) lt have ne: "\<not> is_div_wet ''pagination-end'' (nodes ! j)"
    and rest: "list_all (\<lambda>n. \<not> is_div_wet ''pagination-end'' n) (drop (Suc j) nodes)"
    by (simp_all add: Cons_nth_drop_Suc [symmetric])
  from Suc.hyps(2) lt have d: "d = length nodes - Suc j" and le: "Suc j \<le> length nodes"
    by simp_all
  note IH = Suc.hyps(1) [OF d le rest]
  have dr: "drop j nodes = nodes ! j # drop (Suc j) nodes"
    using lt by (simp add: Cons_nth_drop_Suc)
  show ?case
  proof (cases "pagination_interior (nodes ! j)")
    case False
    with lt ne show ?thesis
      by (simp add: dr pagination_scan_break pagination_interior_def)
  next
    case True
    then consider
      (a) "is_div_wet ''pagination-active'' (nodes ! j)"
      | (d) "\<not> is_div_wet ''pagination-active'' (nodes ! j)"
            "is_div_wet ''pagination-disabled'' (nodes ! j)"
      | (i) "\<not> is_div_wet ''pagination-active'' (nodes ! j)"
            "\<not> is_div_wet ''pagination-disabled'' (nodes ! j)"
            "is_div_wet ''pagination-item'' (nodes ! j)"
      by (auto simp: pagination_interior_def)
    then show ?thesis
    proof cases
      case a
      with lt ne True show ?thesis
        by (simp add: pagination_scan_active IH dr pagination_entry_def)
    next
      case d
      with lt ne True show ?thesis
        by (simp add: pagination_scan_disabled IH dr pagination_entry_def)
    next
      case i
      with lt ne True show ?thesis
        by (simp add: pagination_scan_item IH dr pagination_entry_def)
    qed
  qed
qed


section \<open>Evaluation lemmas\<close>

lemmas sel_defs =
  marker_def is_div_wet_def is_div_wet_prefix_def is_tag_def wet_is_def wet_prefix_def
  startsWith_def

lemma nth_in_drop: "k \<le> j \<Longrightarrow> j < length xs \<Longrightarrow> xs ! j \<in> set (drop k xs)"
proof -
  assume a: "k \<le> j" "j < length xs"
  then have "drop k xs ! (j - k) = xs ! j" by simp
  moreover from a have "j - k < length (drop k xs)" by simp
  ultimately show ?thesis by (metis nth_mem)
qed

lemma is_div_wet_marker: "is_div_wet k (marker k' cs) = (k' = k)"
  by (simp add: sel_defs)

lemma is_div_wet_prefix_marker: "is_div_wet_prefix p (marker k cs) = startsWith k p"
  by (simp add: sel_defs)

lemma is_div_wet_Element:
  "is_div_wet k (Element t a cs) = (t = ''div'' \<and> map_of a ''data-wet'' = Some k)"
  by (simp add: sel_defs)

lemma is_div_wet_prefix_Element:
  "is_div_wet_prefix p (Element t a cs) =
     (t = ''div'' \<and> (case map_of a ''data-wet'' of None \<Rightarrow> False | Some v \<Rightarrow> startsWith v p))"
  by (simp add: sel_defs)

lemma html_marker: "html (marker k cs) = Some cs"
  by (simp add: marker_def)

lemma acc_prefix_not:
  "\<not> is_div_wet_prefix ''accordion-'' X \<Longrightarrow> \<not> is_div_wet ''accordion-heading'' X"
  "\<not> is_div_wet_prefix ''accordion-'' X \<Longrightarrow> \<not> is_div_wet ''accordion-panel'' X"
  "\<not> is_div_wet_prefix ''accordion-'' X \<Longrightarrow> \<not> is_div_wet ''accordion-end'' X"
  "\<not> is_div_wet_prefix ''accordion-'' X \<Longrightarrow> \<not> is_div_wet ''accordion-start'' X"
  by (auto simp: is_div_wet_prefix_def is_div_wet_def wet_prefix_def wet_is_def startsWith_def)

lemma li_simps:
  "li_item l = Element ''li'' [] [Element ''a'' [(''href'', ''#'')] [Text l]]"
  "li_active l = Element ''li'' [(''class'', ''active'')]
       [Element ''a'' [(''href'', ''#''), (''aria-current'', ''page'')] [Text l]]"
  "li_disabled l = Element ''li'' [(''class'', ''disabled'')] [Element ''span'' [] [Text l]]"
  by (simp_all add: li_item_def li_active_def li_disabled_def new_element_def trim_def
        is_space_def)

lemma ul_pagination:
  "addClass (new_element ''ul'') ''pagination'' = Element ''ul'' [(''class'', ''pagination'')] []"
  by (simp add: new_element_def trim_def is_space_def)

lemma pagination_label_marker:
  "pagination_label serialize (marker k c) =
     (if trim (text_of c) = [] then serialize c else trim (text_of c))"
  by (simp add: pagination_label_def marker_def)

section \<open>The claims\<close>

subsection \<open>Marker closure\<close>

text \<open>
  Claim C1 says that no node with a marker of the vocabulary is left anywhere in the tree
  that \<^verbatim>\<open>transformPlaceholdersToGCWeb\<close> returns. The details pass rebuilds the
  \<^verbatim>\<open>details-summary\<close> markers among the children of \<^verbatim>\<open>main\<close> only, and its closing sweep
  (line 203, under the comment that it removes any stray markers) takes
  \<^verbatim>\<open>details-content\<close> markers alone, where the sweeps of the accordion and pagination
  passes take every marker of their families. A \<^verbatim>\<open>details-summary\<close> marker in a table cell
  comes out as it went in.
\<close>

theorem marker_closure_details_summary:
  "transformPlaceholdersToGCWeb (\<lambda>cs. [])
     [Element ''table'' []
        [Element ''tr'' []
           [Element ''td'' [] [marker ''details-summary'' [Text ''More'']]]]] =
   Element ''main'' [(''property'', ''mainContentOfPage''), (''class'', ''container'')]
     [Element ''table'' []
        [Element ''tr'' []
           [Element ''td'' []
              [Element ''div'' [(''data-wet'', ''details-summary'')] [Text ''More'']]]]]
   \<and> occurs (is_div_wet ''details-summary'')
       (contents
          (transformPlaceholdersToGCWeb (\<lambda>cs. [])
             [Element ''table'' []
                [Element ''tr'' []
                   [Element ''td'' [] [marker ''details-summary'' [Text ''More'']]]]]))"
  by code_simp

subsection \<open>Details pairing\<close>

text \<open>
  Claim C2, as amended. For every top-level sequence of a \<^verbatim>\<open>details-summary\<close> marker, two
  \<^verbatim>\<open>details-content\<close> markers and a node \<open>X\<close> that is neither a \<^verbatim>\<open>details-summary\<close> nor
  a \<^verbatim>\<open>details-content\<close> marker, the details pass leaves exactly one \<^verbatim>\<open>details\<close>
  element, whose summary holds the content of the summary marker and whose body is two
  paragraphs, one per content marker and in their order, and \<open>X\<close> is the sibling right
  after it. The closing sweep takes every \<^verbatim>\<open>details-content\<close> marker out of what was
  carried over and out of \<open>X\<close>; where none is nested there, the contents and \<open>X\<close> are
  unmodified.
\<close>

theorem details_pairing:
  "\<not> is_div_wet ''details-summary'' X \<and> \<not> is_div_wet ''details-content'' X \<longrightarrow>
     buildDetails
       [marker ''details-summary'' s, marker ''details-content'' c1,
        marker ''details-content'' c2, X] =
     Element ''details'' []
       [Element ''summary'' [] (remove_all (is_div_wet ''details-content'') s),
        Element ''p'' [] (remove_all (is_div_wet ''details-content'') c1),
        Element ''p'' [] (remove_all (is_div_wet ''details-content'') c2)] #
     remove_all (is_div_wet ''details-content'') [X]
   \<and> (\<not> occurs (is_div_wet ''details-content'') (s @ c1 @ c2 @ [X]) \<longrightarrow>
        buildDetails
          [marker ''details-summary'' s, marker ''details-content'' c1,
           marker ''details-content'' c2, X] =
        [Element ''details'' []
           [Element ''summary'' [] s, Element ''p'' [] c1, Element ''p'' [] c2],
         X])"
proof (intro impI)
  assume "\<not> is_div_wet ''details-summary'' X \<and> \<not> is_div_wet ''details-content'' X"
  then have ns: "\<not> is_div_wet ''details-summary'' X"
    and nc: "\<not> is_div_wet ''details-content'' X"
    by simp_all
  let ?nodes = "[marker ''details-summary'' s, marker ''details-content'' c1,
        marker ''details-content'' c2, X]"
  let ?d = "Element ''details'' []
              [Element ''summary'' [] s, Element ''p'' [] c1, Element ''p'' [] c2]"
  have col: "details_collect ?nodes (0 + 1)
      (append_child (new_element ''details'')
        (html_set (new_element ''summary'') (html (?nodes ! 0)))) = (3, ?d)"
    using nc
    by (simp add: details_collect_content details_collect_stop is_div_wet_marker new_element_def
          html_marker)
  have "buildDetails_loop ?nodes 0 = buildDetails_loop [?d, X] (0 + 1)"
    by (subst buildDetails_loop_summary [OF _ _ col]) (simp_all add: is_div_wet_marker)
  also have "\<dots> = buildDetails_loop [?d, X] (1 + 1)"
    using ns by (simp add: buildDetails_loop_skip)
  also have "\<dots> = [?d, X]"
    by (simp add: buildDetails_loop_done)
  finally have lp: "buildDetails_loop ?nodes 0 = [?d, X]" .
  have gen: "buildDetails ?nodes =
     Element ''details'' []
       [Element ''summary'' [] (remove_all (is_div_wet ''details-content'') s),
        Element ''p'' [] (remove_all (is_div_wet ''details-content'') c1),
        Element ''p'' [] (remove_all (is_div_wet ''details-content'') c2)] #
     remove_all (is_div_wet ''details-content'') [X]"
    unfolding buildDetails_def lp by (simp add: is_div_wet_Element)
  show "buildDetails ?nodes =
     Element ''details'' []
       [Element ''summary'' [] (remove_all (is_div_wet ''details-content'') s),
        Element ''p'' [] (remove_all (is_div_wet ''details-content'') c1),
        Element ''p'' [] (remove_all (is_div_wet ''details-content'') c2)] #
     remove_all (is_div_wet ''details-content'') [X]
   \<and> (\<not> occurs (is_div_wet ''details-content'') (s @ c1 @ c2 @ [X]) \<longrightarrow>
        buildDetails ?nodes = [?d, X])"
    using gen by (simp add: occurs_append remove_all_id)
qed

theorem details_pairing_witness:
  "\<not> is_div_wet ''details-summary'' (Element ''p'' [] [Text ''x'']) \<and>
   \<not> is_div_wet ''details-content'' (Element ''p'' [] [Text ''x'']) \<and>
   \<not> occurs (is_div_wet ''details-content'')
       ([Text ''S''] @ [Text ''a''] @ [Text ''b''] @ [Element ''p'' [] [Text ''x'']]) \<and>
   buildDetails
     [marker ''details-summary'' [Text ''S''], marker ''details-content'' [Text ''a''],
      marker ''details-content'' [Text ''b''], Element ''p'' [] [Text ''x'']] =
   [Element ''details'' []
      [Element ''summary'' [] [Text ''S''], Element ''p'' [] [Text ''a''],
       Element ''p'' [] [Text ''b'']],
    Element ''p'' [] [Text ''x'']]"
  using details_pairing [of "Element ''p'' [] [Text ''x'']" "[Text ''S'']" "[Text ''a'']"
      "[Text ''b'']"]
  by (simp add: is_div_wet_Element)

text \<open>
  The claim as written asks only that \<open>X\<close> is not a \<^verbatim>\<open>details-content\<close> marker. A second
  \<^verbatim>\<open>details-summary\<close> marker in the place of \<open>X\<close> starts a block of its own: the pass
  leaves two \<^verbatim>\<open>details\<close> elements and \<open>X\<close> is gone.
\<close>

theorem details_pairing_counterexample:
  "\<not> is_div_wet ''details-content'' (marker ''details-summary'' [Text ''T'']) \<and>
   buildDetails
     [marker ''details-summary'' [Text ''S''], marker ''details-content'' [Text ''a''],
      marker ''details-content'' [Text ''b''], marker ''details-summary'' [Text ''T'']] =
   [Element ''details'' []
      [Element ''summary'' [] [Text ''S''], Element ''p'' [] [Text ''a''],
       Element ''p'' [] [Text ''b'']],
    Element ''details'' [] [Element ''summary'' [] [Text ''T'']]]"
proof -
  let ?X = "marker ''details-summary'' [Text ''T'']"
  let ?nodes = "[marker ''details-summary'' [Text ''S''], marker ''details-content'' [Text ''a''],
      marker ''details-content'' [Text ''b''], ?X]"
  let ?d = "Element ''details'' []
      [Element ''summary'' [] [Text ''S''], Element ''p'' [] [Text ''a''],
       Element ''p'' [] [Text ''b'']]"
  let ?d2 = "Element ''details'' [] [Element ''summary'' [] [Text ''T'']]"
  have col: "details_collect ?nodes (0 + 1)
      (append_child (new_element ''details'')
        (html_set (new_element ''summary'') (html (?nodes ! 0)))) = (3, ?d)"
    by (simp add: details_collect_content details_collect_stop sel_defs new_element_def)
  have "buildDetails_loop ?nodes 0 = buildDetails_loop [?d, ?X] (0 + 1)"
    by (subst buildDetails_loop_summary [OF _ _ col]) (simp_all add: is_div_wet_marker)
  moreover have col2: "details_collect [?d, ?X] (1 + 1)
      (append_child (new_element ''details'')
        (html_set (new_element ''summary'') (html ([?d, ?X] ! 1)))) = (2, ?d2)"
    by (simp add: details_collect_stop sel_defs new_element_def)
  have "buildDetails_loop [?d, ?X] 1 = buildDetails_loop [?d, ?d2] (1 + 1)"
    by (subst buildDetails_loop_summary [OF _ _ col2]) (simp_all add: is_div_wet_marker)
  ultimately have "buildDetails_loop ?nodes 0 = [?d, ?d2]"
    by (simp add: buildDetails_loop_done)
  then show ?thesis
    by (simp add: buildDetails_def is_div_wet_Element is_div_wet_marker)
qed

subsection \<open>Accordion: a heading closes the item before it\<close>

text \<open>
  Claim C3. For the top-level sequence of an \<^verbatim>\<open>accordion-start\<close> marker, a heading, a
  panel, a second heading, a second panel and an \<^verbatim>\<open>accordion-end\<close> marker, the accordion
  pass leaves exactly one section classed \<^verbatim>\<open>wb-accordion\<close> with exactly two items. The
  summary of each item is the content of its heading marker, and the body of the first
  item is one paragraph with the content of the first panel only, that of the second item
  one paragraph with the content of the second panel only. (The closing sweep of the pass
  runs over the result as over the rest of the tree: an accordion marker nested in a
  marker's content would go; where there is none the contents are carried over as they are.)
\<close>

theorem accordion_implicit_close:
  "buildAccordion
     [marker ''accordion-start'' c0, marker ''accordion-heading'' h1,
      marker ''accordion-panel'' p1, marker ''accordion-heading'' h2,
      marker ''accordion-panel'' p2, marker ''accordion-end'' c5] =
   [Element ''section'' [(''class'', ''wb-accordion'')]
      [Element ''details'' []
         [Element ''summary'' [] (remove_all (is_div_wet_prefix ''accordion-'') h1),
          Element ''p'' [] (remove_all (is_div_wet_prefix ''accordion-'') p1)],
       Element ''details'' []
         [Element ''summary'' [] (remove_all (is_div_wet_prefix ''accordion-'') h2),
          Element ''p'' [] (remove_all (is_div_wet_prefix ''accordion-'') p2)]]]
   \<and> (\<not> occurs (is_div_wet_prefix ''accordion-'') (h1 @ p1 @ h2 @ p2) \<longrightarrow>
        buildAccordion
          [marker ''accordion-start'' c0, marker ''accordion-heading'' h1,
           marker ''accordion-panel'' p1, marker ''accordion-heading'' h2,
           marker ''accordion-panel'' p2, marker ''accordion-end'' c5] =
        [Element ''section'' [(''class'', ''wb-accordion'')]
           [Element ''details'' [] [Element ''summary'' [] h1, Element ''p'' [] p1],
            Element ''details'' [] [Element ''summary'' [] h2, Element ''p'' [] p2]]])"
proof -
  let ?nodes = "[marker ''accordion-start'' c0, marker ''accordion-heading'' h1,
      marker ''accordion-panel'' p1, marker ''accordion-heading'' h2,
      marker ''accordion-panel'' p2, marker ''accordion-end'' c5]"
  let ?i1 = "Element ''details'' [] [Element ''summary'' [] h1, Element ''p'' [] p1]"
  let ?i2 = "Element ''details'' [] [Element ''summary'' [] h2, Element ''p'' [] p2]"
  have scan: "accordion_scan ?nodes (0 + 1) [] None = (5, [?i1], Some ?i2)"
    by (simp add: accordion_scan_heading accordion_scan_panel accordion_scan_stop
          is_div_wet_marker html_marker new_element_def)
  have "buildAccordion_loop ?nodes 0 =
          buildAccordion_loop [accordion_section [?i1] (Some ?i2)] (0 + 1)"
    by (subst buildAccordion_loop_start [OF _ _ scan]) (simp_all add: is_div_wet_marker)
  then have loop: "buildAccordion_loop ?nodes 0 = [accordion_section [?i1] (Some ?i2)]"
    by (simp add: buildAccordion_loop_done)
  have gen: "buildAccordion ?nodes =
   [Element ''section'' [(''class'', ''wb-accordion'')]
      [Element ''details'' []
         [Element ''summary'' [] (remove_all (is_div_wet_prefix ''accordion-'') h1),
          Element ''p'' [] (remove_all (is_div_wet_prefix ''accordion-'') p1)],
       Element ''details'' []
         [Element ''summary'' [] (remove_all (is_div_wet_prefix ''accordion-'') h2),
          Element ''p'' [] (remove_all (is_div_wet_prefix ''accordion-'') p2)]]]"
    unfolding buildAccordion_def loop
    by (simp add: accordion_section_def is_div_wet_prefix_Element)
  then show ?thesis
    by (simp add: occurs_append remove_all_id)
qed

theorem accordion_implicit_close_witness:
  "\<not> occurs (is_div_wet_prefix ''accordion-'')
       ([Text ''H1''] @ [Text ''P1''] @ [Text ''H2''] @ [Text ''P2'']) \<and>
   buildAccordion
     [marker ''accordion-start'' [], marker ''accordion-heading'' [Text ''H1''],
      marker ''accordion-panel'' [Text ''P1''], marker ''accordion-heading'' [Text ''H2''],
      marker ''accordion-panel'' [Text ''P2''], marker ''accordion-end'' []] =
   [Element ''section'' [(''class'', ''wb-accordion'')]
      [Element ''details'' []
         [Element ''summary'' [] [Text ''H1''], Element ''p'' [] [Text ''P1'']],
       Element ''details'' []
         [Element ''summary'' [] [Text ''H2''], Element ''p'' [] [Text ''P2'']]]]"
  using accordion_implicit_close [of "[]" "[Text ''H1'']" "[Text ''P1'']" "[Text ''H2'']"
      "[Text ''P2'']" "[]"]
  by simp

subsection \<open>Accordion: a panel with no heading, and a scope that stops at once\<close>

text \<open>
  Claim C4, as amended. For the top-level sequence of an \<^verbatim>\<open>accordion-start\<close> marker, an
  \<^verbatim>\<open>accordion-panel\<close> marker and an \<^verbatim>\<open>accordion-end\<close> marker, the accordion pass leaves
  one accordion with exactly one item, whose summary is the text \<^verbatim>\<open>Details\<close> and whose
  body is one paragraph with the content of the panel. For the sequence of an
  \<^verbatim>\<open>accordion-start\<close> marker and a node \<open>X\<close> that is no accordion marker (no \<^verbatim>\<open>div\<close> whose
  \<^verbatim>\<open>data-wet\<close> begins with \<^verbatim>\<open>accordion-\<close>), the inner loop stops at \<open>X\<close> with no item
  opened and nothing consumed, and the pass leaves an empty accordion section followed by
  \<open>X\<close>; the closing sweep takes the accordion markers nested in \<open>X\<close>, so \<open>X\<close> is as it was
  where it holds none.
\<close>

theorem accordion_fail_closed:
  "buildAccordion
     [marker ''accordion-start'' c0, marker ''accordion-panel'' p1, marker ''accordion-end'' c2] =
   [Element ''section'' [(''class'', ''wb-accordion'')]
      [Element ''details'' []
         [Element ''summary'' [] [Text ''Details''],
          Element ''p'' [] (remove_all (is_div_wet_prefix ''accordion-'') p1)]]]
   \<and> (\<not> is_div_wet_prefix ''accordion-'' X \<longrightarrow>
        accordion_scan [marker ''accordion-start'' c0, X] 1 [] None = (1, [], None) \<and>
        buildAccordion [marker ''accordion-start'' c0, X] =
          Element ''section'' [(''class'', ''wb-accordion'')] [] #
          remove_all (is_div_wet_prefix ''accordion-'') [X])
   \<and> (\<not> is_div_wet_prefix ''accordion-'' X \<and>
        \<not> occurs (is_div_wet_prefix ''accordion-'') [X] \<longrightarrow>
        buildAccordion [marker ''accordion-start'' c0, X] =
          [Element ''section'' [(''class'', ''wb-accordion'')] [], X])"
proof -
  let ?nodes = "[marker ''accordion-start'' c0, marker ''accordion-panel'' p1,
                 marker ''accordion-end'' c2]"
  let ?item = "Element ''details'' []
                 [Element ''summary'' [] [Text ''Details''], Element ''p'' [] p1]"
  have scan: "accordion_scan ?nodes (0 + 1) [] None = (2, [], Some ?item)"
    by (simp add: accordion_scan_heading accordion_scan_panel accordion_scan_stop
          is_div_wet_marker html_marker new_element_def)
  have "buildAccordion_loop ?nodes 0 =
          buildAccordion_loop [accordion_section [] (Some ?item)] (0 + 1)"
    by (subst buildAccordion_loop_start [OF _ _ scan]) (simp_all add: is_div_wet_marker)
  then have loop: "buildAccordion_loop ?nodes 0 = [accordion_section [] (Some ?item)]"
    by (simp add: buildAccordion_loop_done)
  have part1: "buildAccordion ?nodes =
     [Element ''section'' [(''class'', ''wb-accordion'')]
      [Element ''details'' []
         [Element ''summary'' [] [Text ''Details''],
          Element ''p'' [] (remove_all (is_div_wet_prefix ''accordion-'') p1)]]]"
    unfolding buildAccordion_def loop
    by (simp add: accordion_section_def is_div_wet_prefix_Element)
  have part2: "accordion_scan [marker ''accordion-start'' c0, X] 1 [] None = (1, [], None) \<and>
        buildAccordion [marker ''accordion-start'' c0, X] =
          Element ''section'' [(''class'', ''wb-accordion'')] [] #
          remove_all (is_div_wet_prefix ''accordion-'') [X]"
    if nx: "\<not> is_div_wet_prefix ''accordion-'' X"
  proof -
    let ?ns = "[marker ''accordion-start'' c0, X]"
    have sc: "accordion_scan ?ns (0 + 1) [] None = (1, [], None)"
      using acc_prefix_not [OF nx] by (simp add: accordion_scan_break)
    have "buildAccordion_loop ?ns 0 = buildAccordion_loop [accordion_section [] None, X] (0 + 1)"
      using acc_prefix_not [OF nx]
      by (subst buildAccordion_loop_start [OF _ _ sc]) (simp_all add: is_div_wet_marker)
    also have "\<dots> = buildAccordion_loop [accordion_section [] None, X] (1 + 1)"
      using acc_prefix_not [OF nx] by (simp add: buildAccordion_loop_skip)
    also have "\<dots> = [accordion_section [] None, X]"
      by (simp add: buildAccordion_loop_done)
    finally have lp: "buildAccordion_loop ?ns 0 = [accordion_section [] None, X]" .
    have "remove_all (is_div_wet_prefix ''accordion-'') [accordion_section [] None, X] =
            Element ''section'' [(''class'', ''wb-accordion'')] [] #
            remove_all (is_div_wet_prefix ''accordion-'') [X]"
      by (simp add: accordion_section_def is_div_wet_prefix_Element)
    with sc lp show ?thesis by (simp add: buildAccordion_def)
  qed
  from part1 part2 show ?thesis by (simp add: remove_all_id)
qed

theorem accordion_fail_closed_witness:
  "\<not> is_div_wet_prefix ''accordion-'' (Element ''p'' [] [Text ''x'']) \<and>
   \<not> occurs (is_div_wet_prefix ''accordion-'') [Element ''p'' [] [Text ''x'']] \<and>
   buildAccordion
     [marker ''accordion-start'' [], marker ''accordion-panel'' [Text ''P1''],
      marker ''accordion-end'' []] =
   [Element ''section'' [(''class'', ''wb-accordion'')]
      [Element ''details'' []
         [Element ''summary'' [] [Text ''Details''], Element ''p'' [] [Text ''P1'']]]] \<and>
   accordion_scan [marker ''accordion-start'' [], Element ''p'' [] [Text ''x'']] 1 [] None =
     (1, [], None) \<and>
   buildAccordion [marker ''accordion-start'' [], Element ''p'' [] [Text ''x'']] =
     [Element ''section'' [(''class'', ''wb-accordion'')] [], Element ''p'' [] [Text ''x'']]"
  using accordion_fail_closed [of "[]" "[Text ''P1'']" "[]" "Element ''p'' [] [Text ''x'']"]
  by (simp add: is_div_wet_prefix_Element)

text \<open>
  The claim as written asks only that \<open>X\<close> is neither a heading nor a panel. An
  \<^verbatim>\<open>accordion-end\<close> marker is neither, and it does not remain: the loop stops at it and
  line 261 removes it.
\<close>

theorem accordion_fail_closed_counterexample:
  "\<not> is_div_wet ''accordion-heading'' (marker ''accordion-end'' []) \<and>
   \<not> is_div_wet ''accordion-panel'' (marker ''accordion-end'' []) \<and>
   buildAccordion [marker ''accordion-start'' [], marker ''accordion-end'' []] =
     [Element ''section'' [(''class'', ''wb-accordion'')] []]"
proof -
  let ?ns = "[marker ''accordion-start'' [], marker ''accordion-end'' []]"
  have sc: "accordion_scan ?ns (0 + 1) [] None = (1, [], None)"
    by (simp add: accordion_scan_stop is_div_wet_marker)
  have "buildAccordion_loop ?ns 0 = buildAccordion_loop [accordion_section [] None] (0 + 1)"
    by (subst buildAccordion_loop_start [OF _ _ sc]) (simp_all add: is_div_wet_marker)
  then have "buildAccordion_loop ?ns 0 = [accordion_section [] None]"
    by (simp add: buildAccordion_loop_done)
  then show ?thesis
    by (simp add: buildAccordion_def accordion_section_def is_div_wet_prefix_Element
          is_div_wet_marker)
qed

subsection \<open>Pagination labels\<close>



subsection \<open>Table and list markers\<close>

text \<open>
  Claim C6, for a marker at the head of a sibling list, with any siblings \<open>xs\<close> that are no
  target before the first target. A \<^verbatim>\<open>table-responsive\<close> marker is said to wrap the table
  in a new container classed \<^verbatim>\<open>table-responsive\<close>. Line 157 moves the table into the new
  container before \<^verbatim>\<open>replaceWith\<close> looks for the parent of the table, so the container is
  spliced into itself and the table is gone from the document: the pass goes on with the
  siblings \<open>xs @ rest\<close>, in which there is neither the table nor a container (the first
  conjunct). The other parts of the claim hold: the search goes past the siblings that
  are no target, a kind of \<open>tableClassMap\<close> replaces the class of the first later table, a
  list kind adds its name to the classes of the first later list, a marker with no target
  changes no node, and no marker of the two families is left anywhere in the result of
  its pass.
\<close>

theorem table_list_annotation:
  "(\<not> list_ex (is_tag ''table'') xs \<longrightarrow>
      tablesPass (marker ''table-responsive'' c # xs @ Element ''table'' a cs # rest) =
        tablesPass (xs @ rest))
   \<and> (tableClassMap kind = Some cl \<and> \<not> list_ex (is_tag ''table'') xs \<longrightarrow>
      tablesPass (marker kind c # xs @ Element ''table'' a cs # rest) =
        tablesPass (xs @ Element ''table'' (set_attr_list ''class'' cl a) cs # rest))
   \<and> ((lk = ''list-inline'' \<or> lk = ''list-unstyled'') \<and> (t = ''ul'' \<or> t = ''ol'') \<and>
       \<not> list_ex (\<lambda>n. is_tag ''ul'' n \<or> is_tag ''ol'' n) xs \<longrightarrow>
      listsPass (marker lk c # xs @ Element t a cs # rest) =
        listsPass (xs @ addClass (Element t a cs) lk # rest))
   \<and> (wet_prefix ''table-'' (marker tk []) \<and> \<not> list_ex (is_tag ''table'') ys \<longrightarrow>
      tablesPass (marker tk c # ys) = tablesPass ys)
   \<and> ((lk = ''list-inline'' \<or> lk = ''list-unstyled'') \<and>
       \<not> list_ex (\<lambda>n. is_tag ''ul'' n \<or> is_tag ''ol'' n) ys \<longrightarrow>
      listsPass (marker lk c # ys) = listsPass ys)
   \<and> \<not> occurs (wet_prefix ''table-'') (tablesPass ns)
   \<and> \<not> occurs (\<lambda>n. wet_is ''list-inline'' n \<or> wet_is ''list-unstyled'' n) (listsPass ns)"
proof -
  let ?T = "is_tag ''table''" and ?L = "\<lambda>n. is_tag ''ul'' n \<or> is_tag ''ol'' n"
  have responsive: "tablesPass (marker ''table-responsive'' c # xs @ Element ''table'' a cs # rest) =
      tablesPass (xs @ rest)" if "\<not> list_ex ?T xs"
  proof -
    have "wet_prefix ''table-'' (marker ''table-responsive'' [])"
      by (simp add: marker_def wet_prefix_def startsWith_def)
    from tables_plain_marker [OF this]
      later_plain_remove [OF that, of "Element ''table'' a cs" rest]
    show ?thesis by (simp add: tablesPass_plain table_edit_def is_tag_Element)
  qed
  have classed: "tablesPass (marker kind c # xs @ Element ''table'' a cs # rest) =
      tablesPass (xs @ Element ''table'' (set_attr_list ''class'' cl a) cs # rest)"
    if k: "tableClassMap kind = Some cl" and x: "\<not> list_ex ?T xs"
  proof -
    from tableClassMap_kinds [OF k] have r: "kind \<noteq> ''table-responsive''"
      and w: "wet_prefix ''table-'' (marker kind [])" by simp_all
    from r k have "table_edit kind = Some (\<lambda>e. attr_set e ''class'' cl)"
      by (simp add: table_edit_def)
    with tables_plain_marker [OF w]
      later_plain_edit [OF x, of "Element ''table'' a cs" "\<lambda>e. attr_set e ''class'' cl" rest]
    show ?thesis by (simp add: tablesPass_plain is_tag_Element)
  qed
  have listed: "listsPass (marker lk c # xs @ Element t a cs # rest) =
      listsPass (xs @ addClass (Element t a cs) lk # rest)"
    if k: "lk = ''list-inline'' \<or> lk = ''list-unstyled''" and t: "t = ''ul'' \<or> t = ''ol''"
      and x: "\<not> list_ex ?L xs"
  proof -
    from t have "?L (Element t a cs)" by (simp add: is_tag_Element)
    from later_plain_edit [of ?L, OF x this, of "\<lambda>e. addClass e lk" rest] lists_plain_marker [OF k]
    show ?thesis
      by (simp only: listsPass_plain list_edit_def on_plain_addClass)
  qed
  have no_table: "tablesPass (marker tk c # ys) = tablesPass ys"
    if "wet_prefix ''table-'' (marker tk [])" "\<not> list_ex ?T ys"
    using that by (simp add: tablesPass_plain tables_plain_marker later_plain_none)
  have no_list: "listsPass (marker lk c # ys) = listsPass ys"
    if "lk = ''list-inline'' \<or> lk = ''list-unstyled''" "\<not> list_ex ?L ys"
    using lists_plain_marker [OF that(1), of c ys]
      later_plain_none [of ?L ys "list_edit lk", OF that(2)]
    by (simp only: listsPass_plain)
  have closed_t: "\<not> occurs (wet_prefix ''table-'') (tablesPass ns)"
    by (simp add: tablesPass_plain tables_plain_def sibling_pass_closed wet_only_prefix)
  have closed_l: "\<not> occurs (\<lambda>n. wet_is ''list-inline'' n \<or> wet_is ''list-unstyled'' n) (listsPass ns)"
    unfolding listsPass_plain lists_plain_def
    by (rule sibling_pass_closed [OF wet_only_lists])
  from responsive classed listed no_table no_list closed_t closed_l show ?thesis by blast
qed

text \<open>
  The equations on one document for each case: the first is the table that is lost.
\<close>

theorem table_list_annotation_witness:
  "\<not> list_ex (is_tag ''table'') [Element ''p'' [] [Text ''x'']]
   \<and> \<not> list_ex (\<lambda>n. is_tag ''ul'' n \<or> is_tag ''ol'' n) [Element ''p'' [] [Text ''x'']]
   \<and> tableClassMap ''table-striped'' = Some ''table table-striped''
   \<and> wet_prefix ''table-'' (marker ''table-hover'' [])
   \<and> tablesPass
       [marker ''table-responsive'' [], Element ''p'' [] [Text ''x''],
        Element ''table'' [] [Text ''T'']] =
     [Element ''p'' [] [Text ''x'']]
   \<and> tablesPass
       [marker ''table-striped'' [], Element ''p'' [] [Text ''x''],
        Element ''table'' [(''class'', ''old'')] [Text ''T''], Element ''table'' [] []] =
     [Element ''p'' [] [Text ''x''],
      Element ''table'' [(''class'', ''table table-striped'')] [Text ''T''], Element ''table'' [] []]
   \<and> listsPass
       [marker ''list-unstyled'' [], Element ''p'' [] [Text ''x''],
        Element ''ol'' [(''class'', ''old'')] [Text ''L'']] =
     [Element ''p'' [] [Text ''x''],
      Element ''ol'' [(''class'', ''old list-unstyled'')] [Text ''L'']]
   \<and> tablesPass [marker ''table-hover'' [], Element ''p'' [] [Text ''x'']] =
       [Element ''p'' [] [Text ''x'']]
   \<and> listsPass [marker ''list-inline'' [], Element ''p'' [] [Text ''x'']] =
       [Element ''p'' [] [Text ''x'']]"
proof -
  let ?p = "Element ''p'' [] [Text ''x'']"
  have xt: "\<not> list_ex (is_tag ''table'') [?p]" by (simp add: is_tag_def)
  have xl: "\<not> list_ex (\<lambda>n. is_tag ''ul'' n \<or> is_tag ''ol'' n) [?p]" by (simp add: is_tag_def)
  have k: "tableClassMap ''table-striped'' = Some ''table table-striped''"
    by (simp add: tableClassMap_def)
  have w: "wet_prefix ''table-'' (marker ''table-hover'' [])"
    by (simp add: marker_def wet_prefix_def startsWith_def)
  have e1: "tablesPass [?p] = [?p]" by code_simp
  have e2: "tablesPass
      [?p, Element ''table'' [(''class'', ''table table-striped'')] [Text ''T''],
       Element ''table'' [] []] =
      [?p, Element ''table'' [(''class'', ''table table-striped'')] [Text ''T''],
       Element ''table'' [] []]" by code_simp
  have e3: "listsPass [?p, Element ''ol'' [(''class'', ''old list-unstyled'')] [Text ''L'']] =
      [?p, Element ''ol'' [(''class'', ''old list-unstyled'')] [Text ''L'']]" by code_simp
  have e4: "listsPass [?p] = [?p]" by code_simp
  have e5: "addClass (Element ''ol'' [(''class'', ''old'')] [Text ''L'']) ''list-unstyled'' =
      Element ''ol'' [(''class'', ''old list-unstyled'')] [Text ''L'']" by code_simp
  from xt e1
    table_list_annotation [where xs = "[?p]" and c = "[]" and a = "[]" and cs = "[Text ''T'']"
      and rest = "[]", THEN conjunct1]
  have r: "tablesPass [marker ''table-responsive'' [], ?p, Element ''table'' [] [Text ''T'']] = [?p]"
    by simp
  from xt k e2
    table_list_annotation [where xs = "[?p]" and c = "[]" and a = "[(''class'', ''old'')]"
      and cs = "[Text ''T'']" and rest = "[Element ''table'' [] []]" and kind = "''table-striped''"
      and cl = "''table table-striped''", THEN conjunct2, THEN conjunct1]
  have s: "tablesPass
      [marker ''table-striped'' [], ?p, Element ''table'' [(''class'', ''old'')] [Text ''T''],
       Element ''table'' [] []] =
      [?p, Element ''table'' [(''class'', ''table table-striped'')] [Text ''T''],
       Element ''table'' [] []]"
    by simp
  from xl e3 e5
    table_list_annotation [where xs = "[?p]" and c = "[]" and a = "[(''class'', ''old'')]"
      and cs = "[Text ''L'']" and rest = "[]" and lk = "''list-unstyled''" and t = "''ol''",
      THEN conjunct2, THEN conjunct2, THEN conjunct1]
  have l: "listsPass
      [marker ''list-unstyled'' [], ?p, Element ''ol'' [(''class'', ''old'')] [Text ''L'']] =
      [?p, Element ''ol'' [(''class'', ''old list-unstyled'')] [Text ''L'']]"
    by simp
  from xt w e1
    table_list_annotation [where c = "[]" and tk = "''table-hover''" and ys = "[?p]",
      THEN conjunct2, THEN conjunct2, THEN conjunct2, THEN conjunct1]
  have nt: "tablesPass [marker ''table-hover'' [], ?p] = [?p]" by simp
  from xl e4
    table_list_annotation [where c = "[]" and lk = "''list-inline''" and ys = "[?p]",
      THEN conjunct2, THEN conjunct2, THEN conjunct2, THEN conjunct2, THEN conjunct1]
  have nl: "listsPass [marker ''list-inline'' [], ?p] = [?p]" by simp
  from xt xl k w r s l nt nl show ?thesis by blast
qed

subsection \<open>Alert wrapping\<close>

text \<open>
  Claim C7. Wherever the alert pass comes to an element with an alert marker
  (\<^verbatim>\<open>data-wet\<close> is \<^verbatim>\<open>alert-\<close> and one of \<^verbatim>\<open>success\<close>, \<^verbatim>\<open>info\<close>, \<^verbatim>\<open>warning\<close>,
  \<^verbatim>\<open>danger\<close>), among any siblings \<open>pre\<close> and \<open>post\<close>, it puts in its place a section classed
  \<^verbatim>\<open>alert alert-kind\<close> whose only child is the first \<^verbatim>\<open>p\<close> below the marker (itself gone
  through by the pass), and an empty section when there is no \<^verbatim>\<open>p\<close> below; the pass
  goes down through every other element and leaves what holds no alert marker as it is
  (so a paragraph with no marker inside is carried over unchanged); and no element with
  an alert marker is left anywhere in the result.
\<close>

theorem alert_wrapping:
  "(map_of a ''data-wet'' = Some (''alert-'' @ kind) \<and>
    kind \<in> set [''success'', ''info'', ''warning'', ''danger''] \<longrightarrow>
      alertsPass (pre @ [Element t a cs] @ post) =
        alertsPass pre @
        [Element ''section'' [(''class'', ''alert alert-'' @ kind)]
           (case first_paragraph cs of None \<Rightarrow> [] | Some p \<Rightarrow> alertsPass [p])] @
        alertsPass post)
   \<and> (\<not> wet_prefix ''alert-'' (Element t a cs) \<longrightarrow>
        alertsPass (pre @ [Element t a cs] @ post) =
          alertsPass pre @ [Element t a (alertsPass cs)] @ alertsPass post)
   \<and> (\<not> occurs (wet_prefix ''alert-'') ns \<longrightarrow> alertsPass ns = ns)
   \<and> \<not> occurs (wet_prefix ''alert-'') (alertsPass ns)"
proof (intro conjI impI)
  assume h: "map_of a ''data-wet'' = Some (''alert-'' @ kind) \<and>
    kind \<in> set [''success'', ''info'', ''warning'', ''danger'']"
  then have m: "wet_prefix ''alert-'' (Element t a cs)"
    by (simp add: wet_prefix_def startsWith_def)
  from h have c: "alert_class a = ''alert alert-'' @ kind"
    by (simp add: alert_class_kinds)
  have "alerts_plain (opt_list (first_paragraph cs)) =
          (case first_paragraph cs of None \<Rightarrow> [] | Some p \<Rightarrow> alertsPass [p])"
    by (cases "first_paragraph cs") (simp_all add: alertsPass_plain)
  with m c show "alertsPass (pre @ [Element t a cs] @ post) =
        alertsPass pre @
        [Element ''section'' [(''class'', ''alert alert-'' @ kind)]
           (case first_paragraph cs of None \<Rightarrow> [] | Some p \<Rightarrow> alertsPass [p])] @
        alertsPass post"
    by (simp add: alertsPass_plain alerts_plain_append)
next
  assume "\<not> wet_prefix ''alert-'' (Element t a cs)"
  then show "alertsPass (pre @ [Element t a cs] @ post) =
          alertsPass pre @ [Element t a (alertsPass cs)] @ alertsPass post"
    by (simp add: alertsPass_plain alerts_plain_append)
next
  assume "\<not> occurs (wet_prefix ''alert-'') ns"
  then show "alertsPass ns = ns"
    by (simp add: alertsPass_plain alerts_plain_id)
next
  show "\<not> occurs (wet_prefix ''alert-'') (alertsPass ns)"
    by (simp add: alertsPass_plain alerts_plain_closed)
qed

theorem alert_wrapping_witness:
  "alertsPass
     [Element ''h1'' [] [Text ''t''],
      marker ''alert-warning'' [Element ''p'' [] [Text ''w'']],
      marker ''alert-info'' []] =
   [Element ''h1'' [] [Text ''t''],
    Element ''section'' [(''class'', ''alert alert-warning'')] [Element ''p'' [] [Text ''w'']],
    Element ''section'' [(''class'', ''alert alert-info'')] []]"
proof -
  have p: "alertsPass [Element ''p'' [] [Text ''w'']] = [Element ''p'' [] [Text ''w'']]"
    and h: "alertsPass [Element ''h1'' [] [Text ''t'']] = [Element ''h1'' [] [Text ''t'']]"
    and e: "alertsPass [] = []"
    using alert_wrapping [of _ _ _ _ _ _ "[Element ''p'' [] [Text ''w'']]"]
      alert_wrapping [of _ _ _ _ _ _ "[Element ''h1'' [] [Text ''t'']]"]
      alert_wrapping [of _ _ _ _ _ _ "[]"]
    by (simp_all add: wet_prefix_def)
  from alert_wrapping [of "[(''data-wet'', ''alert-info'')]" "''info''" "[]" "''div''" "[]" "[]"]
  have i: "alertsPass [marker ''alert-info'' []] =
             [Element ''section'' [(''class'', ''alert alert-info'')] []]"
    by (simp add: marker_def e)
  from alert_wrapping [of "[(''data-wet'', ''alert-warning'')]" "''warning''"
      "[Element ''h1'' [] [Text ''t'']]" "''div''" "[Element ''p'' [] [Text ''w'']]"
      "[marker ''alert-info'' []]"]
  show ?thesis
    by (simp add: marker_def [symmetric] p h i)
qed

subsection \<open>The responsive table, twice\<close>

text \<open>
  Claim C8 says that a \<^verbatim>\<open>table-responsive\<close> marker followed by one table gives one
  wrapper that holds the table, and that a second run of the table pass changes nothing.
  Whatever the marker and the table hold, the table pass returns the empty sequence for
  the two of them, and with more siblings \<open>rest\<close> after the table it returns what it
  returns for \<open>rest\<close> alone: neither the wrapper nor the table is in the document (line
  157, as for claim C6). The second half holds for every document: the result of the
  pass holds no table marker, and a second run changes nothing.
\<close>

theorem table_responsive_twice:
  "tablesPass [marker ''table-responsive'' c, Element ''table'' a cs] = []
   \<and> tablesPass (marker ''table-responsive'' c # Element ''table'' a cs # rest) = tablesPass rest
   \<and> \<not> occurs (wet_prefix ''table-'') (tablesPass ns)
   \<and> tablesPass (tablesPass ns) = tablesPass ns"
proof -
  have w: "wet_prefix ''table-'' (marker ''table-responsive'' [])"
    by (simp add: marker_def wet_prefix_def startsWith_def)
  have gone: "tablesPass (marker ''table-responsive'' c # Element ''table'' a cs # rest) =
      tablesPass rest" for rest
    using tables_plain_marker [OF w, of c "Element ''table'' a cs # rest"]
      later_plain_remove [of "is_tag ''table''" "[]" "Element ''table'' a cs" rest]
    by (simp add: tablesPass_plain table_edit_def is_tag_Element)
  have "tablesPass [] = []" by (simp add: tablesPass_plain tables_plain_def)
  with gone [of "[]"] have one: "tablesPass [marker ''table-responsive'' c, Element ''table'' a cs] = []"
    by simp
  have closed: "\<not> occurs (wet_prefix ''table-'') (tablesPass ns)"
    by (simp add: tablesPass_plain tables_plain_def sibling_pass_closed wet_only_prefix)
  have twice: "tablesPass (tablesPass ns) = tablesPass ns"
    by (simp add: tablesPass_plain tables_plain_def sibling_pass_twice wet_only_prefix)
  from one gone closed twice show ?thesis by simp
qed

subsection \<open>Exit status\<close>



subsection \<open>A start marker with no end marker\<close>

text \<open>
  Claim C10. Take a top-level \<^verbatim>\<open>accordion-start\<close> marker at index \<open>i\<close> with no
  \<^verbatim>\<open>accordion-end\<close> marker after it. The inner loop then stops at the end of the
  sequence, or at once at the node after the start marker when that node is neither a
  heading nor a panel (no item is open then, and nothing was consumed); the section built
  so far replaces the start marker and the nodes from where the loop stopped all stay:
  no node is removed as an end marker. Likewise for a top-level \<^verbatim>\<open>pagination-start\<close>
  marker at index \<open>i\<close> with no \<^verbatim>\<open>pagination-end\<close> marker after it: the navigation list,
  with one entry for each marker of the longest run of item, active and disabled markers
  after the start marker, replaces the start marker, and everything after that run stays.
\<close>

theorem missing_end_marker:
  "(i < length nodes \<and> is_div_wet ''accordion-start'' (nodes ! i) \<and>
    list_all (\<lambda>n. \<not> is_div_wet ''accordion-end'' n) (drop (Suc i) nodes) \<longrightarrow>
      (case accordion_scan nodes (i + 1) [] None of
         (j, its, cur) \<Rightarrow>
           (j = length nodes \<or>
            j = i + 1 \<and> j < length nodes \<and> its = [] \<and> cur = None \<and>
            \<not> is_div_wet ''accordion-heading'' (nodes ! j) \<and>
            \<not> is_div_wet ''accordion-panel'' (nodes ! j)) \<and>
           buildAccordion_loop nodes i =
             buildAccordion_loop
               (take i nodes @ [accordion_section its cur] @ drop j nodes) (i + 1)))
   \<and>
   (i < length nodes \<and> is_div_wet ''pagination-start'' (nodes ! i) \<and>
    list_all (\<lambda>n. \<not> is_div_wet ''pagination-end'' n) (drop (Suc i) nodes) \<longrightarrow>
      buildPagination_loop serialize nodes i =
        buildPagination_loop serialize
          (take i nodes @
           [Element ''nav'' [(''aria-label'', ''Pagination'')]
              [Element ''ul'' [(''class'', ''pagination'')]
                 (map (pagination_entry serialize)
                    (takeWhile pagination_interior (drop (Suc i) nodes)))]] @
           drop (Suc i + length (takeWhile pagination_interior (drop (Suc i) nodes))) nodes)
          (i + 1))"
proof (intro conjI impI)
  assume "i < length nodes \<and> is_div_wet ''accordion-start'' (nodes ! i) \<and>
    list_all (\<lambda>n. \<not> is_div_wet ''accordion-end'' n) (drop (Suc i) nodes)"
  then have lt: "i < length nodes" and st: "is_div_wet ''accordion-start'' (nodes ! i)"
    and ne: "list_all (\<lambda>n. \<not> is_div_wet ''accordion-end'' n) (drop (Suc i) nodes)"
    by simp_all
  obtain j its cur where sc: "accordion_scan nodes (i + 1) [] None = (j, its, cur)"
    by (cases "accordion_scan nodes (i + 1) [] None") auto
  have noend: "\<not> (j < length nodes \<and> is_div_wet ''accordion-end'' (nodes ! j))"
  proof
    assume a: "j < length nodes \<and> is_div_wet ''accordion-end'' (nodes ! j)"
    from accordion_scan_bounds [OF sc] have "Suc i \<le> j" by simp
    with a have "nodes ! j \<in> set (drop (Suc i) nodes)"
      by (simp add: nth_in_drop)
    with ne a show False by (simp add: list_all_iff)
  qed
  have j: "j = length nodes \<or>
            j = i + 1 \<and> j < length nodes \<and> its = [] \<and> cur = None \<and>
            \<not> is_div_wet ''accordion-heading'' (nodes ! j) \<and>
            \<not> is_div_wet ''accordion-panel'' (nodes ! j)"
  proof (cases "Suc i < length nodes")
    case False
    with lt sc show ?thesis by (simp add: accordion_scan_stop)
  next
    case True
    with ne have e1: "\<not> is_div_wet ''accordion-end'' (nodes ! Suc i)"
      and rest: "list_all (\<lambda>n. \<not> is_div_wet ''accordion-end'' n) (drop (Suc (Suc i)) nodes)"
      by (simp_all add: Cons_nth_drop_Suc [symmetric])
    from True have le: "Suc (Suc i) \<le> length nodes" by simp
    show ?thesis
    proof (cases "is_div_wet ''accordion-heading'' (nodes ! Suc i)")
      case True
      with \<open>Suc i < length nodes\<close> e1 sc accordion_scan_open [OF le rest]
      show ?thesis by (simp add: accordion_scan_heading) (metis fst_conv)
    next
      case nh: False
      show ?thesis
      proof (cases "is_div_wet ''accordion-panel'' (nodes ! Suc i)")
        case True
        with \<open>Suc i < length nodes\<close> e1 nh sc accordion_scan_open [OF le rest]
        show ?thesis by (simp add: accordion_scan_panel) (metis fst_conv)
      next
        case False
        with \<open>Suc i < length nodes\<close> e1 nh sc show ?thesis
          by (simp add: accordion_scan_break)
      qed
    qed
  qed
  from buildAccordion_loop_start [OF lt st sc] noend
  have "buildAccordion_loop nodes i =
             buildAccordion_loop
               (take i nodes @ [accordion_section its cur] @ drop j nodes) (i + 1)"
    by simp
  with j sc show "case accordion_scan nodes (i + 1) [] None of
         (j, its, cur) \<Rightarrow>
           (j = length nodes \<or>
            j = i + 1 \<and> j < length nodes \<and> its = [] \<and> cur = None \<and>
            \<not> is_div_wet ''accordion-heading'' (nodes ! j) \<and>
            \<not> is_div_wet ''accordion-panel'' (nodes ! j)) \<and>
           buildAccordion_loop nodes i =
             buildAccordion_loop
               (take i nodes @ [accordion_section its cur] @ drop j nodes) (i + 1)"
    by simp
next
  assume "i < length nodes \<and> is_div_wet ''pagination-start'' (nodes ! i) \<and>
    list_all (\<lambda>n. \<not> is_div_wet ''pagination-end'' n) (drop (Suc i) nodes)"
  then have lt: "i < length nodes" and st: "is_div_wet ''pagination-start'' (nodes ! i)"
    and ne: "list_all (\<lambda>n. \<not> is_div_wet ''pagination-end'' n) (drop (Suc i) nodes)"
    by simp_all
  let ?run = "takeWhile pagination_interior (drop (Suc i) nodes)"
  let ?j = "Suc i + length ?run"
  let ?ul = "Element ''ul'' [(''class'', ''pagination'')] ([] @ map (pagination_entry serialize) ?run)"
  from lt have le: "Suc i \<le> length nodes" by simp
  have sc: "pagination_scan serialize nodes (i + 1) (addClass (new_element ''ul'') ''pagination'')
              = (?j, ?ul)"
    using pagination_scan_spec [OF le ne, of serialize "''ul''" "[(''class'', ''pagination'')]" "[]"]
    by (simp add: ul_pagination)
  have noend: "\<not> (?j < length nodes \<and> is_div_wet ''pagination-end'' (nodes ! ?j))"
  proof
    assume a: "?j < length nodes \<and> is_div_wet ''pagination-end'' (nodes ! ?j)"
    then have "nodes ! ?j \<in> set (drop (Suc i) nodes)"
      by (simp add: nth_in_drop)
    with ne a show False by (simp add: list_all_iff)
  qed
  have ifj: "(if ?j < length nodes \<and> is_div_wet ''pagination-end'' (nodes ! ?j)
              then ?j + 1 else ?j) = ?j"
    using noend by (rule if_not_P)
  from buildPagination_loop_start [OF lt st sc, unfolded ifj]
  show "buildPagination_loop serialize nodes i =
        buildPagination_loop serialize
          (take i nodes @
           [Element ''nav'' [(''aria-label'', ''Pagination'')]
              [Element ''ul'' [(''class'', ''pagination'')]
                 (map (pagination_entry serialize) ?run)]] @
           drop ?j nodes)
          (i + 1)"
    by (simp add: pagination_nav_def new_element_def)
qed


theorem missing_end_marker_witness:
  "buildAccordion_loop
     [marker ''accordion-start'' [], marker ''accordion-heading'' [Text ''H''],
      marker ''accordion-panel'' [Text ''P'']] 0 =
   [Element ''section'' [(''class'', ''wb-accordion'')]
      [Element ''details'' [] [Element ''summary'' [] [Text ''H''], Element ''p'' [] [Text ''P'']]]]
   \<and>
   buildPagination_loop (\<lambda>cs. [])
     [marker ''pagination-start'' [], marker ''pagination-item'' [Text ''1''],
      Element ''p'' [] [Text ''x'']] 0 =
   [Element ''nav'' [(''aria-label'', ''Pagination'')]
      [Element ''ul'' [(''class'', ''pagination'')]
         [Element ''li'' [] [Element ''a'' [(''href'', ''#'')] [Text ''1'']]]],
    Element ''p'' [] [Text ''x'']]"
proof -
  let ?a = "[marker ''accordion-start'' [], marker ''accordion-heading'' [Text ''H''],
      marker ''accordion-panel'' [Text ''P'']]"
  let ?p = "[marker ''pagination-start'' [], marker ''pagination-item'' [Text ''1''],
      Element ''p'' [] [Text ''x'']]"
  have sc: "accordion_scan ?a (0 + 1) [] None =
      (3, [], Some (Element ''details'' []
                     [Element ''summary'' [] [Text ''H''], Element ''p'' [] [Text ''P'']]))"
    by (simp add: accordion_scan_heading accordion_scan_panel accordion_scan_stop
          is_div_wet_marker html_marker new_element_def)
  have ent: "pagination_entry (\<lambda>cs. []) (marker ''pagination-item'' [Text ''1'']) =
      Element ''li'' [] [Element ''a'' [(''href'', ''#'')] [Text ''1'']]"
    by (simp add: pagination_entry_def is_div_wet_marker li_simps pagination_label_marker
          trim_def is_space_def)
  from missing_end_marker [of 0 ?a] sc
  have "buildAccordion_loop ?a 0 =
          buildAccordion_loop [accordion_section [] (Some (Element ''details'' []
                     [Element ''summary'' [] [Text ''H''], Element ''p'' [] [Text ''P'']]))] (0 + 1)"
    by (simp add: is_div_wet_marker)
  then have A: "buildAccordion_loop ?a 0 =
     [Element ''section'' [(''class'', ''wb-accordion'')]
      [Element ''details'' [] [Element ''summary'' [] [Text ''H''], Element ''p'' [] [Text ''P'']]]]"
    by (simp add: buildAccordion_loop_done accordion_section_def)
  from missing_end_marker [of 0 ?p "\<lambda>cs. []"]
  have "buildPagination_loop (\<lambda>cs. []) ?p 0 =
        buildPagination_loop (\<lambda>cs. [])
          [Element ''nav'' [(''aria-label'', ''Pagination'')]
             [Element ''ul'' [(''class'', ''pagination'')]
                [Element ''li'' [] [Element ''a'' [(''href'', ''#'')] [Text ''1'']]]],
           Element ''p'' [] [Text ''x'']] (0 + 1)"
    by (simp add: pagination_interior_def ent is_div_wet_marker is_div_wet_Element)
  then have P: "buildPagination_loop (\<lambda>cs. []) ?p 0 =
          [Element ''nav'' [(''aria-label'', ''Pagination'')]
             [Element ''ul'' [(''class'', ''pagination'')]
                [Element ''li'' [] [Element ''a'' [(''href'', ''#'')] [Text ''1'']]]],
           Element ''p'' [] [Text ''x'']]"
    by (simp add: buildPagination_loop_skip buildPagination_loop_done is_div_wet_Element)
  from A P show ?thesis by simp
qed

end
